theory Spec2Isabelle
  imports Main
begin

section \<open>Data model (src/transports/types.ts)\<close>

text \<open>
  The string-literal union \<^verbatim>\<open>ConnState\<close> is a datatype (constructors capitalised).
  Object types are records; an optional field \<^verbatim>\<open>f?: T\<close> is a \<open>T option\<close>, with \<open>None\<close>
  for an absent (undefined) field. Channel and user ids are the integers the data model
  speaks of. Field names shared by several object types carry a suffix:
  \<open>_ch\<close> for \<^verbatim>\<open>Channel\<close>, \<open>_u\<close> for \<^verbatim>\<open>User\<close>.
\<close>

datatype ConnState = Disconnected | Connecting | Connected | Error

record Channel =
  id_ch :: int
  name_ch :: string
  parentId :: "int option"

record User =
  id_u :: int
  name_u :: string
  channelId :: int
  talking :: "bool option"
  muted_u :: "bool option"
  deafened_u :: "bool option"

record MeState =
  muted :: bool
  deafened :: bool

record TransportState =
  connState :: ConnState
  currentServer :: "string option"
  currentChannelId :: "int option"
  me :: MeState
  channels :: "Channel list"
  users :: "User list"

record ConnectParams =
  server :: string
  username :: "string option"

section \<open>The environment of the mock transport\<close>

text \<open>
  A listener is a function object; the transport's \<^verbatim>\<open>Set\<close> compares listeners by
  identity, so a listener is named by a number. What the function does when it is
  called is given by a table \<open>cbs\<close> from listener to a script of actions. A callback may
  subscribe a listener, invoke the unsubscribe function of a listener, or (the store's
  callback \<^verbatim>\<open>(state) => set(state)\<close>) replace the store's visible state by the snapshot
  it received. Callbacks are observers: they issue no transport command.
\<close>

datatype action = Subscribe nat | Unsubscribe nat | SetStore

type_synonym callbacks = "nat \<Rightarrow> action list"

text \<open>Where a listener invocation comes from: \<^verbatim>\<open>subscribe\<close> (line 39) or \<^verbatim>\<open>update\<close> (line 85).\<close>

datatype origin = OnSubscribe | OnUpdate

text \<open>
  The fields of \<^verbatim>\<open>class MockTransport\<close> (\<open>state\<close>, \<open>listeners\<close>, \<open>connectTimer\<close>), the
  timer table of the JavaScript runtime (\<open>timers\<close>: pending handle and due time, in
  creation order; \<open>now\<close>; \<open>nextHandle\<close>), the visible state of the zustand store
  (\<open>store\<close>, \<open>None\<close> before the store exists), and a record of every listener invocation
  (\<open>log\<close>: listener, origin, snapshot passed).

  \<open>listeners\<close> is the \<^verbatim>\<open>[[SetData]]\<close> list of the ECMAScript \<^verbatim>\<open>Set\<close>: entries in
  insertion order, a deleted entry replaced by the marker \<open>None\<close> (empty).
\<close>

record World =
  state :: TransportState
  listeners :: "nat option list"
  connectTimer :: "nat option"
  timers :: "(nat \<times> nat) list"
  now :: nat
  nextHandle :: nat
  store :: "TransportState option"
  log :: "(nat \<times> origin \<times> TransportState) list"

subsection \<open>ECMAScript \<^verbatim>\<open>Set\<close>: add, delete\<close>

definition set_add :: "nat \<Rightarrow> nat option list \<Rightarrow> nat option list" where
  "set_add l es = (if Some l \<in> set es then es else es @ [Some l])"

definition set_delete :: "nat \<Rightarrow> nat option list \<Rightarrow> nat option list" where
  "set_delete l es = map (\<lambda>e. if e = Some l then None else e) es"

text \<open>The listeners currently in the set, in insertion order.\<close>

definition live :: "nat option list \<Rightarrow> nat list" where
  "live es = concat (map (\<lambda>e. case e of None \<Rightarrow> [] | Some l \<Rightarrow> [l]) es)"

subsection \<open>Timers of the runtime: \<^verbatim>\<open>setTimeout\<close>, \<^verbatim>\<open>clearTimeout\<close>\<close>

text \<open>
  \<^verbatim>\<open>setTimeout(cb, ms)\<close> registers a pending timer and returns its handle. The only
  callback ever registered is the one of \<^verbatim>\<open>connect\<close>, so the table keeps handle and due
  time only. A handle is truthy when it is not \<open>0\<close>.
\<close>

definition setTimeout :: "nat \<Rightarrow> World \<Rightarrow> nat \<times> World" where
  "setTimeout ms w =
     (nextHandle w,
      w\<lparr>timers := timers w @ [(nextHandle w, now w + ms)], nextHandle := Suc (nextHandle w)\<rparr>)"

definition clearTimeout :: "nat \<Rightarrow> World \<Rightarrow> World" where
  "clearTimeout h w = w\<lparr>timers := filter (\<lambda>t. fst t \<noteq> h) (timers w)\<rparr>"

definition truthy :: "nat option \<Rightarrow> bool" where
  "truthy t = (case t of None \<Rightarrow> False | Some h \<Rightarrow> h \<noteq> 0)"

section \<open>The mock transport (src/transports/mock-transport.ts)\<close>

definition defaultChannels :: "Channel list" where
  "defaultChannels =
     [\<lparr>id_ch = 1, name_ch = ''Lobby'', parentId = None\<rparr>,
      \<lparr>id_ch = 2, name_ch = ''Gaming'', parentId = None\<rparr>,
      \<lparr>id_ch = 3, name_ch = ''AFK'', parentId = None\<rparr>]"

definition defaultUsers :: "User list" where
  "defaultUsers =
     [\<lparr>id_u = 1, name_u = ''You'', channelId = 1, talking = None,
       muted_u = None, deafened_u = None\<rparr>,
      \<lparr>id_u = 2, name_u = ''Alex'', channelId = 1, talking = Some True,
       muted_u = None, deafened_u = None\<rparr>,
      \<lparr>id_u = 3, name_u = ''Sam'', channelId = 2, talking = None,
       muted_u = None, deafened_u = None\<rparr>]"

definition initialState :: TransportState where
  "initialState =
     \<lparr>connState = Disconnected, currentServer = None, currentChannelId = Some 1,
      me = \<lparr>muted = False, deafened = False\<rparr>,
      channels = defaultChannels, users = defaultUsers\<rparr>"

text \<open>\<^verbatim>\<open>createMockTransport()\<close>: a new transport, in a runtime with no pending timer.\<close>

definition createMockTransport :: World where
  "createMockTransport =
     \<lparr>state = initialState, listeners = [], connectTimer = None,
      timers = [], now = 0, nextHandle = 1, store = None, log = []\<rparr>"

text \<open>
  \<^verbatim>\<open>snapshot()\<close> (lines 88-95): a new object with the fields of \<open>state\<close>, a copy of \<open>me\<close>,
  and arrays of copies of every channel and user.
\<close>

definition snapshot :: "TransportState \<Rightarrow> TransportState" where
  "snapshot s =
     \<lparr>connState = connState s, currentServer = currentServer s,
      currentChannelId = currentChannelId s,
      me = \<lparr>muted = muted (me s), deafened = deafened (me s)\<rparr>,
      channels = map (\<lambda>channel. \<lparr>id_ch = id_ch channel, name_ch = name_ch channel,
                                  parentId = parentId channel\<rparr>) (channels s),
      users = map (\<lambda>user. \<lparr>id_u = id_u user, name_u = name_u user,
                            channelId = channelId user, talking = talking user,
                            muted_u = muted_u user, deafened_u = deafened_u user\<rparr>) (users s)\<rparr>"

definition getState :: "World \<Rightarrow> TransportState" where
  "getState w = snapshot (state w)"

text \<open>
  Calling a listener runs its script; a script may subscribe further listeners, whose
  callbacks run at once, and so on. The first argument bounds the number of nested
  calls still allowed: \<open>None\<close> is a computation that does not return.

  \<^verbatim>\<open>subscribe\<close> (lines 37-43) adds the listener and calls it with a fresh snapshot; the
  function it returns is \<open>unsubscribe l\<close>.
\<close>

definition unsubscribe :: "nat \<Rightarrow> World \<Rightarrow> World" where
  "unsubscribe l w = w\<lparr>listeners := set_delete l (listeners w)\<rparr>"

fun invoke :: "nat \<Rightarrow> callbacks \<Rightarrow> nat \<Rightarrow> origin \<Rightarrow> TransportState \<Rightarrow> World \<Rightarrow> World option"
and run_actions :: "nat \<Rightarrow> callbacks \<Rightarrow> TransportState \<Rightarrow> action list \<Rightarrow> World \<Rightarrow> World option"
and subscribe :: "nat \<Rightarrow> callbacks \<Rightarrow> nat \<Rightarrow> World \<Rightarrow> World option"
where
  "invoke 0 cbs l org snap w = None"
| "invoke (Suc n) cbs l org snap w =
     run_actions n cbs snap (cbs l) (w\<lparr>log := log w @ [(l, org, snap)]\<rparr>)"
| "run_actions n cbs snap [] w = Some w"
| "run_actions n cbs snap (Subscribe k # as) w =
     (case subscribe n cbs k w of
        None \<Rightarrow> None
      | Some w' \<Rightarrow> run_actions n cbs snap as w')"
| "run_actions n cbs snap (Unsubscribe k # as) w =
     run_actions n cbs snap as (unsubscribe k w)"
| "run_actions n cbs snap (SetStore # as) w =
     run_actions n cbs snap as (w\<lparr>store := Some snap\<rparr>)"
| "subscribe n cbs l w =
     (let w1 = w\<lparr>listeners := set_add l (listeners w)\<rparr>
      in invoke n cbs l OnSubscribe (snapshot (state w1)) w1)"

text \<open>
  \<^verbatim>\<open>Set.prototype.forEach\<close>: the index runs over the live entry list; the length is read
  again after every callback, and an empty entry is skipped.
\<close>

fun forEach :: "nat \<Rightarrow> callbacks \<Rightarrow> nat \<Rightarrow> TransportState \<Rightarrow> World \<Rightarrow> World option" where
  "forEach 0 cbs i snap w = None"
| "forEach (Suc n) cbs i snap w =
     (if i < length (listeners w) then
        (case listeners w ! i of
           None \<Rightarrow> forEach n cbs (Suc i) snap w
         | Some l \<Rightarrow>
             (case invoke n cbs l OnUpdate snap w of
                None \<Rightarrow> None
              | Some w' \<Rightarrow> forEach n cbs (Suc i) snap w'))
      else Some w)"

text \<open>
  \<^verbatim>\<open>update(partial)\<close> (lines 82-86). The spread \<^verbatim>\<open>{...this.state, ...partial}\<close> is the
  function \<open>partial\<close> that overwrites the given fields.
\<close>

definition update ::
  "nat \<Rightarrow> callbacks \<Rightarrow> (TransportState \<Rightarrow> TransportState) \<Rightarrow> World \<Rightarrow> World option" where
  "update n cbs partial w =
     (let w1 = w\<lparr>state := partial (state w)\<rparr>;
          snap = snapshot (state w1)
      in forEach n cbs 0 snap w1)"

text \<open>\<^verbatim>\<open>connect\<close> (lines 45-52).\<close>

definition connect :: "nat \<Rightarrow> callbacks \<Rightarrow> ConnectParams \<Rightarrow> World \<Rightarrow> World option" where
  "connect n cbs params w =
     (if connState (state w) = Connected then Some w
      else
        (case update n cbs
                (\<lambda>s. s\<lparr>connState := Connecting, currentServer := Some (server params)\<rparr>) w of
           None \<Rightarrow> None
         | Some w1 \<Rightarrow>
             (let w2 = (if truthy (connectTimer w1)
                        then clearTimeout (the (connectTimer w1)) w1 else w1);
                  (h, w3) = setTimeout 400 w2
              in Some (w3\<lparr>connectTimer := Some h\<rparr>))))"

text \<open>The timer callback of \<^verbatim>\<open>connect\<close> (lines 49-51).\<close>

definition connectCompletion :: "nat \<Rightarrow> callbacks \<Rightarrow> World \<Rightarrow> World option" where
  "connectCompletion n cbs w = update n cbs (\<lambda>s. s\<lparr>connState := Connected\<rparr>) w"

text \<open>\<^verbatim>\<open>disconnect\<close> (lines 54-57).\<close>

definition disconnect :: "nat \<Rightarrow> callbacks \<Rightarrow> World \<Rightarrow> World option" where
  "disconnect n cbs w =
     (let w1 = (if truthy (connectTimer w)
                then clearTimeout (the (connectTimer w)) w else w)
      in update n cbs (\<lambda>s. s\<lparr>connState := Disconnected\<rparr>) w1)"

text \<open>\<^verbatim>\<open>joinChannel\<close> (lines 59-64).\<close>

definition joinChannel :: "nat \<Rightarrow> callbacks \<Rightarrow> int \<Rightarrow> World \<Rightarrow> World option" where
  "joinChannel n cbs c w =
     (let us = map (\<lambda>user. if id_u user = 1 then user\<lparr>channelId := c\<rparr> else user)
                   (users (state w))
      in update n cbs (\<lambda>s. s\<lparr>currentChannelId := Some c, users := us\<rparr>) w)"

text \<open>\<^verbatim>\<open>updateMe\<close> (lines 74-80); its argument overwrites the given fields of \<open>me\<close>.\<close>

definition updateMe :: "nat \<Rightarrow> callbacks \<Rightarrow> (MeState \<Rightarrow> MeState) \<Rightarrow> World \<Rightarrow> World option" where
  "updateMe n cbs partial w =
     (let m = partial (me (state w));
          us = map (\<lambda>user. if id_u user = 1
                           then user\<lparr>muted_u := Some (muted m), deafened_u := Some (deafened m)\<rparr>
                           else user)
                   (users (state w))
      in update n cbs (\<lambda>s. s\<lparr>me := m, users := us\<rparr>) w)"

definition setMute :: "nat \<Rightarrow> callbacks \<Rightarrow> bool \<Rightarrow> World \<Rightarrow> World option" where
  "setMute n cbs b w = updateMe n cbs (\<lambda>m. m\<lparr>muted := b\<rparr>) w"

definition setDeafen :: "nat \<Rightarrow> callbacks \<Rightarrow> bool \<Rightarrow> World \<Rightarrow> World option" where
  "setDeafen n cbs b w = updateMe n cbs (\<lambda>m. m\<lparr>deafened := b\<rparr>) w"

text \<open>
  Time passing: the runtime fires every pending timer that falls due, in creation order
  (all timers have the same delay, so that is the order of their due times), each one
  running the completion callback of \<^verbatim>\<open>connect\<close>. A callback of this model issues no
  command, so no timer is created or cleared while the due ones run.
\<close>

fun fire_due :: "nat \<Rightarrow> callbacks \<Rightarrow> nat \<Rightarrow> (nat \<times> nat) list \<Rightarrow> World \<Rightarrow> World option" where
  "fire_due n cbs T [] w = Some w"
| "fire_due n cbs T (t # ts) w =
     (if snd t \<le> T \<and> t \<in> set (timers w) then
        (case connectCompletion n cbs
                (w\<lparr>timers := removeAll t (timers w), now := max (now w) (snd t)\<rparr>) of
           None \<Rightarrow> None
         | Some w' \<Rightarrow> fire_due n cbs T ts w')
      else fire_due n cbs T ts w)"

definition advance :: "nat \<Rightarrow> callbacks \<Rightarrow> nat \<Rightarrow> World \<Rightarrow> World option" where
  "advance n cbs dt w =
     (case fire_due n cbs (now w + dt) (timers w) w of
        None \<Rightarrow> None
      | Some w' \<Rightarrow> Some (w'\<lparr>now := now w + dt\<rparr>))"

section \<open>The store (src/stores/app-store.ts)\<close>

text \<open>
  \<^verbatim>\<open>create\<close> (lines 15-27): read the initial snapshot, subscribe the store's callback
  (listener \<open>L\<close>, whose script is \<open>[SetStore]\<close>), and start from the initial snapshot.
\<close>

definition createStore :: "nat \<Rightarrow> callbacks \<Rightarrow> nat \<Rightarrow> World \<Rightarrow> World option" where
  "createStore n cbs L w =
     (let initial = getState w
      in case subscribe n cbs L w of
           None \<Rightarrow> None
         | Some w' \<Rightarrow> Some (w'\<lparr>store := Some initial\<rparr>))"

text \<open>\<^verbatim>\<open>toggleMute\<close>, \<^verbatim>\<open>toggleDeafen\<close> (lines 24-25); \<^verbatim>\<open>get()\<close> reads the visible state.\<close>

definition toggleMute :: "nat \<Rightarrow> callbacks \<Rightarrow> World \<Rightarrow> World option" where
  "toggleMute n cbs w =
     (case store w of
        None \<Rightarrow> None
      | Some v \<Rightarrow> setMute n cbs (\<not> muted (me v)) w)"

definition toggleDeafen :: "nat \<Rightarrow> callbacks \<Rightarrow> World \<Rightarrow> World option" where
  "toggleDeafen n cbs w =
     (case store w of
        None \<Rightarrow> None
      | Some v \<Rightarrow> setDeafen n cbs (\<not> deafened (me v)) w)"

section \<open>Runs of the transport\<close>

text \<open>What a client, or the passing of time, can do to the transport.\<close>

datatype command =
    CSubscribe nat | CUnsubscribe nat | CGetState
  | CConnect ConnectParams | CDisconnect | CJoinChannel int
  | CSetMute bool | CSetDeafen bool | CAdvance nat

fun exec :: "nat \<Rightarrow> callbacks \<Rightarrow> command \<Rightarrow> World \<Rightarrow> World option" where
  "exec n cbs (CSubscribe l) w = subscribe n cbs l w"
| "exec n cbs (CUnsubscribe l) w = Some (unsubscribe l w)"
| "exec n cbs CGetState w = Some w"
| "exec n cbs (CConnect p) w = connect n cbs p w"
| "exec n cbs CDisconnect w = disconnect n cbs w"
| "exec n cbs (CJoinChannel c) w = joinChannel n cbs c w"
| "exec n cbs (CSetMute b) w = setMute n cbs b w"
| "exec n cbs (CSetDeafen b) w = setDeafen n cbs b w"
| "exec n cbs (CAdvance dt) w = advance n cbs dt w"

text \<open>A run: commands in sequence, each with its own bound on nested calls.\<close>

fun execs :: "callbacks \<Rightarrow> (nat \<times> command) list \<Rightarrow> World \<Rightarrow> World option" where
  "execs cbs [] w = Some w"
| "execs cbs (c # cs) w =
     (case exec (fst c) cbs (snd c) w of None \<Rightarrow> None | Some w' \<Rightarrow> execs cbs cs w')"

text \<open>The snapshots delivered between two worlds of a run, and who received them.\<close>

definition emitted :: "World \<Rightarrow> World \<Rightarrow> (nat \<times> origin \<times> TransportState) list" where
  "emitted w w' = drop (length (log w)) (log w')"

definition calls_of :: "nat \<Rightarrow> (nat \<times> origin \<times> TransportState) list \<Rightarrow> (origin \<times> TransportState) list" where
  "calls_of l es = map snd (filter (\<lambda>e. fst e = l) es)"

definition pass_recipients :: "(nat \<times> origin \<times> TransportState) list \<Rightarrow> nat list" where
  "pass_recipients es = map fst (filter (\<lambda>e. fst (snd e) = OnUpdate) es)"

text \<open>
  The timer discipline of the transport: handles are truthy and below the next handle,
  every pending timer is the one \<open>connectTimer\<close> holds, it falls due within the latency,
  and a timer is pending only while connecting.
\<close>

definition timers_ok :: "World \<Rightarrow> bool" where
  "timers_ok w =
     (nextHandle w \<noteq> 0
      \<and> distinct (map fst (timers w))
      \<and> (\<forall>t \<in> set (timers w).
            fst t \<noteq> 0 \<and> fst t < nextHandle w \<and> connectTimer w = Some (fst t)
            \<and> snd t \<le> now w + 400 \<and> connState (state w) = Connecting))"

text \<open>A callback table whose listeners only observe.\<close>

definition passive_cbs :: "callbacks \<Rightarrow> bool" where
  "passive_cbs cbs = (\<forall>l. cbs l = [])"

text \<open>
  The self user mirrors \<open>me\<close>. An optional flag reads as a boolean by JavaScript
  truthiness: absent counts as false.
\<close>

definition flag :: "bool option \<Rightarrow> bool" where
  "flag b = (case b of None \<Rightarrow> False | Some v \<Rightarrow> v)"

definition has_self :: "TransportState \<Rightarrow> bool" where
  "has_self s = (\<exists>u \<in> set (users s). id_u u = 1)"

definition mirrors :: "TransportState \<Rightarrow> bool" where
  "mirrors s =
     (\<forall>u \<in> set (users s). id_u u = 1 \<longrightarrow>
        flag (muted_u u) = muted (me s) \<and> flag (deafened_u u) = deafened (me s))"

definition mirrors_exactly :: "TransportState \<Rightarrow> bool" where
  "mirrors_exactly s =
     (\<forall>u \<in> set (users s). id_u u = 1 \<longrightarrow>
        muted_u u = Some (muted (me s)) \<and> deafened_u u = Some (deafened (me s)))"

section \<open>Relations between the worlds of a run\<close>

text \<open>
  Delivering snapshots changes neither the transport state nor the timers
  (\<open>same_core\<close>); it appends to the log, and every snapshot appended is the transport
  state (\<open>delivers\<close>).
\<close>

definition same_core :: "World \<Rightarrow> World \<Rightarrow> bool" where
  "same_core w w' =
     (state w' = state w \<and> connectTimer w' = connectTimer w \<and> timers w' = timers w
      \<and> now w' = now w \<and> nextHandle w' = nextHandle w)"

definition delivers :: "World \<Rightarrow> World \<Rightarrow> bool" where
  "delivers w w' =
     (same_core w w'
      \<and> (\<exists>es. log w' = log w @ es \<and> (\<forall>e \<in> set es. snd (snd e) = state w)))"

section \<open>Concrete worlds\<close>

text \<open>Listeners that only observe; a transport with two of them subscribed.\<close>

definition observers :: callbacks where
  "observers = (\<lambda>l. [])"

definition two_observers :: World where
  "two_observers =
     the (execs observers [(Suc 0, CSubscribe 7), (Suc 0, CSubscribe 8)] createMockTransport)"

text \<open>Connected to server \<open>''s''\<close>: connect, then let the latency pass.\<close>

definition connected_world :: World where
  "connected_world =
     the (execs observers
            [(Suc 0, CSubscribe 7),
             (Suc (Suc 0), CConnect \<lparr>server = ''s'', username = None\<rparr>),
             (Suc (Suc 0), CAdvance 400)] createMockTransport)"

text \<open>A connect attempt is pending: connect at time 0, then 100 passes.\<close>

definition pending_world :: World where
  "pending_world =
     the (execs observers
            [(Suc 0, CSubscribe 7),
             (Suc (Suc 0), CConnect \<lparr>server = ''s'', username = None\<rparr>),
             (Suc (Suc 0), CAdvance 100)] createMockTransport)"

text \<open>Commands other than \<^verbatim>\<open>connect\<close>.\<close>

fun is_connect :: "command \<Rightarrow> bool" where
  "is_connect (CConnect p) = True"
| "is_connect c = False"

text \<open>Nothing is pending and the transport is disconnected.\<close>

definition idle :: "World \<Rightarrow> bool" where
  "idle w = (timers w = [] \<and> connState (state w) = Disconnected)"

text \<open>A state with a self user whose flags mirror \<open>me\<close>.\<close>

definition state_ok :: "TransportState \<Rightarrow> bool" where
  "state_ok s = (has_self s \<and> mirrors s)"

text \<open>A run with a subscription before and after muting.\<close>

definition muted_world :: World where
  "muted_world =
     the (execs observers
            [(Suc 0, CSubscribe 7), (Suc (Suc 0), CJoinChannel 2),
             (Suc (Suc 0), CSetMute True), (Suc (Suc 0), CSubscribe 8)] createMockTransport)"

text \<open>
  No callback subscribes listener \<open>l\<close>; between two worlds listener \<open>l\<close> was not called,
  and did not enter the set if it was not in it.
\<close>

definition never_subscribed :: "callbacks \<Rightarrow> nat \<Rightarrow> bool" where
  "never_subscribed cbs l = (\<forall>k. Subscribe l \<notin> set (cbs k))"

definition uncalled :: "nat \<Rightarrow> World \<Rightarrow> World \<Rightarrow> bool" where
  "uncalled l w w' =
     ((\<exists>es. log w' = log w @ es \<and> l \<notin> fst ` set es)
      \<and> (Some l \<notin> set (listeners w) \<longrightarrow> Some l \<notin> set (listeners w')))"

text \<open>
  No callback unsubscribes listener \<open>L\<close>; between two worlds the entries of \<open>L\<close> in the
  listener set stay where they are; the store, once it shows the transport state, keeps
  showing it.
\<close>

definition never_unsubscribed :: "callbacks \<Rightarrow> nat \<Rightarrow> bool" where
  "never_unsubscribed cbs L = (\<forall>k. Unsubscribe L \<notin> set (cbs k))"

definition entry_kept :: "nat \<Rightarrow> World \<Rightarrow> World \<Rightarrow> bool" where
  "entry_kept L w w' =
     (\<forall>j. j < length (listeners w) \<and> listeners w ! j = Some L \<longrightarrow>
          j < length (listeners w') \<and> listeners w' ! j = Some L)"

definition store_kept :: "World \<Rightarrow> World \<Rightarrow> bool" where
  "store_kept w w' =
     (state w' = state w \<and> (store w = Some (state w) \<longrightarrow> store w' = Some (state w)))"

text \<open>The application: a fresh transport and the store created on it, listener 0 being
  the store's callback.\<close>

definition app_cbs :: callbacks where
  "app_cbs = (\<lambda>l. if l = 0 then [SetStore] else [])"

definition app_world :: World where
  "app_world = the (createStore (Suc (Suc 0)) app_cbs 0 createMockTransport)"

text \<open>
  Between two worlds the entry list of the listener set only grows at its end, and an
  entry either stays as it is or becomes empty.
\<close>

definition entries_shrink :: "World \<Rightarrow> World \<Rightarrow> bool" where
  "entries_shrink w w' =
     (length (listeners w) \<le> length (listeners w')
      \<and> (\<forall>j < length (listeners w).
            listeners w' ! j = listeners w ! j \<or> listeners w' ! j = None))"

text \<open>
  Listener 1 unsubscribes listener 2 when called; both are subscribed. Listener 1
  subscribes listener 3 when called; listener 3 has been unsubscribed again.
\<close>

definition unsub_cbs :: callbacks where
  "unsub_cbs = (\<lambda>l. if l = 1 then [Unsubscribe 2] else [])"

definition duo :: World where
  "duo = the (execs unsub_cbs [(Suc (Suc 0), CSubscribe 1), (Suc (Suc 0), CSubscribe 2)]
                createMockTransport)"

definition sub_cbs :: callbacks where
  "sub_cbs = (\<lambda>l. if l = 1 then [Subscribe 3] else [])"

definition solo :: World where
  "solo = the (execs sub_cbs [(Suc (Suc (Suc 0)), CSubscribe 1), (0, CUnsubscribe 3)]
                 createMockTransport)"

section \<open>Object identities: \<^verbatim>\<open>snapshot()\<close> on the heap\<close>

text \<open>
  Whether a snapshot shares structure with the internal state is a matter of object
  identity, which the values above do not show. Here the objects live in a heap: an
  address is an index into the list of all objects allocated so far, and a field that
  holds an object holds its address. \<open>StateObj\<close> is a \<^verbatim>\<open>TransportState\<close> object (its last
  three fields are the addresses of \<open>me\<close>, of the \<open>channels\<close> array and of the \<open>users\<close>
  array), \<open>ArrayObj\<close> an array of addresses; the other objects hold primitive values
  only.
\<close>

datatype obj =
    StateObj ConnState "string option" "int option" nat nat nat
  | MeObj MeState
  | ArrayObj "nat list"
  | ChannelObj Channel
  | UserObj User

type_synonym heap = "obj list"

definition deref :: "heap \<Rightarrow> nat \<Rightarrow> obj option" where
  "deref h a = (if a < length h then Some (h ! a) else None)"

definition alloc :: "obj \<Rightarrow> heap \<Rightarrow> nat \<times> heap" where
  "alloc ob h = (length h, h @ [ob])"

text \<open>The spread \<^verbatim>\<open>{...x}\<close>: a new object with the fields of the object at \<open>a\<close>.\<close>

definition copy_obj :: "heap \<Rightarrow> nat \<Rightarrow> (nat \<times> heap) option" where
  "copy_obj h a = (case deref h a of None \<Rightarrow> None | Some ob \<Rightarrow> Some (alloc ob h))"

text \<open>\<^verbatim>\<open>arr.map((x) => ({ ...x }))\<close>: copy every element, then allocate the new array.\<close>

fun copy_elems :: "heap \<Rightarrow> nat list \<Rightarrow> (nat list \<times> heap) option" where
  "copy_elems h [] = Some ([], h)"
| "copy_elems h (a # as) =
     (case copy_obj h a of
        None \<Rightarrow> None
      | Some (b, h1) \<Rightarrow>
          (case copy_elems h1 as of
             None \<Rightarrow> None
           | Some (bs, h2) \<Rightarrow> Some (b # bs, h2)))"

definition map_copy :: "heap \<Rightarrow> nat \<Rightarrow> (nat \<times> heap) option" where
  "map_copy h arr =
     (case deref h arr of
        Some (ArrayObj as) \<Rightarrow>
          (case copy_elems h as of
             None \<Rightarrow> None
           | Some (bs, h1) \<Rightarrow> Some (alloc (ArrayObj bs) h1))
      | _ \<Rightarrow> None)"

text \<open>
  \<^verbatim>\<open>snapshot()\<close> (lines 88-95) for the state object at address \<open>a\<close>: the address of the
  new snapshot and the heap after the allocations; \<open>None\<close> when the heap does not hold a
  state at \<open>a\<close>.
\<close>

definition snapshot_h :: "heap \<Rightarrow> nat \<Rightarrow> (nat \<times> heap) option" where
  "snapshot_h h a =
     (case deref h a of
        Some (StateObj c s ch m cs us) \<Rightarrow>
          (case copy_obj h m of
             None \<Rightarrow> None
           | Some (m', h1) \<Rightarrow>
               (case map_copy h1 cs of
                  None \<Rightarrow> None
                | Some (cs', h2) \<Rightarrow>
                    (case map_copy h2 us of
                       None \<Rightarrow> None
                     | Some (us', h3) \<Rightarrow> Some (alloc (StateObj c s ch m' cs' us') h3))))
      | _ \<Rightarrow> None)"

text \<open>The value an object graph stands for, when the heap holds a well-typed state at \<open>a\<close>.\<close>

definition the_me :: "heap \<Rightarrow> nat \<Rightarrow> MeState option" where
  "the_me h a = (case deref h a of Some (MeObj m) \<Rightarrow> Some m | _ \<Rightarrow> None)"

definition the_channel :: "heap \<Rightarrow> nat \<Rightarrow> Channel option" where
  "the_channel h a = (case deref h a of Some (ChannelObj c) \<Rightarrow> Some c | _ \<Rightarrow> None)"

definition the_user :: "heap \<Rightarrow> nat \<Rightarrow> User option" where
  "the_user h a = (case deref h a of Some (UserObj u) \<Rightarrow> Some u | _ \<Rightarrow> None)"

definition the_array :: "heap \<Rightarrow> nat \<Rightarrow> nat list option" where
  "the_array h a = (case deref h a of Some (ArrayObj as) \<Rightarrow> Some as | _ \<Rightarrow> None)"

definition read_channels :: "heap \<Rightarrow> nat \<Rightarrow> Channel list option" where
  "read_channels h arr =
     (case the_array h arr of None \<Rightarrow> None | Some as \<Rightarrow> those (map (the_channel h) as))"

definition read_users :: "heap \<Rightarrow> nat \<Rightarrow> User list option" where
  "read_users h arr =
     (case the_array h arr of None \<Rightarrow> None | Some as \<Rightarrow> those (map (the_user h) as))"

definition read_state :: "heap \<Rightarrow> nat \<Rightarrow> TransportState option" where
  "read_state h a =
     (case deref h a of
        Some (StateObj c s ch m cs us) \<Rightarrow>
          (case the_me h m of
             None \<Rightarrow> None
           | Some m' \<Rightarrow>
               (case read_channels h cs of
                  None \<Rightarrow> None
                | Some chs \<Rightarrow>
                    (case read_users h us of
                       None \<Rightarrow> None
                     | Some usrs \<Rightarrow>
                         Some \<lparr>connState = c, currentServer = s, currentChannelId = ch,
                               me = m', channels = chs, users = usrs\<rparr>)))
      | _ \<Rightarrow> None)"

text \<open>The addresses of the objects of the graph at \<open>a\<close>.\<close>

definition elems :: "heap \<Rightarrow> nat \<Rightarrow> nat list" where
  "elems h arr = (case the_array h arr of None \<Rightarrow> [] | Some as \<Rightarrow> as)"

definition reach :: "heap \<Rightarrow> nat \<Rightarrow> nat list" where
  "reach h a =
     (case deref h a of
        Some (StateObj c s ch m cs us) \<Rightarrow> a # m # cs # us # elems h cs @ elems h us
      | _ \<Rightarrow> [a])"

text \<open>
  A heap holding the initial state of the mock: the seeded channels and users, their
  arrays, \<open>me\<close>, and the state object at address 9.
\<close>

definition initial_heap :: heap where
  "initial_heap =
     map ChannelObj defaultChannels @ [ArrayObj [0, 1, 2]]
     @ map UserObj defaultUsers @ [ArrayObj [4, 5, 6]]
     @ [MeObj \<lparr>muted = False, deafened = False\<rparr>,
        StateObj Disconnected None (Some 1) 8 3 7]"

text \<open>
  The heap after one \<^verbatim>\<open>snapshot()\<close> of the initial state (the snapshot is at address 19,
  its copy of \<open>me\<close> at address 10), and that heap after a consumer has overwritten the
  snapshot's \<open>me\<close>.
\<close>

definition snap_heap :: heap where
  "snap_heap = snd (the (snapshot_h initial_heap 9))"

definition mutated_heap :: heap where
  "mutated_heap = snap_heap[10 := MeObj \<lparr>muted = True, deafened = True\<rparr>]"

text \<open>
  Commands other than \<^verbatim>\<open>disconnect\<close>; the time a command lets pass, and a run.
\<close>

fun is_disconnect :: "command \<Rightarrow> bool" where
  "is_disconnect CDisconnect = True"
| "is_disconnect c = False"

fun elapsed1 :: "command \<Rightarrow> nat" where
  "elapsed1 (CAdvance dt) = dt"
| "elapsed1 c = 0"

definition elapsed :: "(nat \<times> command) list \<Rightarrow> nat" where
  "elapsed cs = sum_list (map (\<lambda>c. elapsed1 (snd c)) cs)"

text \<open>
  A connect to server \<open>s\<close> is under way, its completion due at time \<open>D\<close>; the connect
  to server \<open>s\<close> has completed.
\<close>

definition pending_until :: "string \<Rightarrow> nat \<Rightarrow> World \<Rightarrow> bool" where
  "pending_until s D w =
     (timers_ok w \<and> map snd (timers w) = [D] \<and> now w < D
      \<and> connState (state w) = Connecting \<and> currentServer (state w) = Some s)"

definition settled :: "string \<Rightarrow> World \<Rightarrow> bool" where
  "settled s w =
     (timers w = [] \<and> nextHandle w \<noteq> 0
      \<and> connState (state w) = Connected \<and> currentServer (state w) = Some s)"

text \<open>Every snapshot of a list of deliveries shows the given connection state and server.\<close>

definition all_show :: "ConnState \<Rightarrow> string \<Rightarrow> (nat \<times> origin \<times> TransportState) list \<Rightarrow> bool" where
  "all_show c s es =
     list_all (\<lambda>e. connState (snd (snd e)) = c \<and> currentServer (snd (snd e)) = Some s) es"

text \<open>A run through connecting, connected and disconnected, with a change of channel.\<close>

definition round_trip :: World where
  "round_trip =
     the (execs observers
            [(Suc 0, CSubscribe 7),
             (Suc (Suc 0), CConnect \<lparr>server = ''s'', username = None\<rparr>),
             (Suc (Suc 0), CAdvance 400), (Suc (Suc 0), CJoinChannel 3),
             (Suc (Suc 0), CDisconnect)] createMockTransport)"

text \<open>Two observers subscribed and a connect to \<open>''s''\<close> just issued.\<close>

definition connecting_world :: World where
  "connecting_world =
     the (connect 3 observers \<lparr>server = ''s'', username = None\<rparr> two_observers)"

section \<open>Callbacks that issue commands\<close>

text \<open>
  A listener is handed the transport by whoever subscribed it, so its callback may also
  call \<^verbatim>\<open>connect\<close> or \<^verbatim>\<open>disconnect\<close> while a delivery is under way, and what it does may
  depend on the snapshot it receives. Here a callback is a script of such calls, chosen
  by the snapshot. The methods of the transport are the same as above, except that how
  a listener is called is a parameter \<open>via\<close>; \<open>invoke_at\<close> ties the knot, with the bound
  on nested calls decreasing at every callback.
\<close>

datatype call = Observe action | Connect ConnectParams | Disconnect

type_synonym handlers = "nat \<Rightarrow> TransportState \<Rightarrow> call list"

type_synonym caller = "nat \<Rightarrow> origin \<Rightarrow> TransportState \<Rightarrow> World \<Rightarrow> World option"

text \<open>\<^verbatim>\<open>subscribe\<close> (lines 37-43).\<close>

definition subscribe_by :: "caller \<Rightarrow> nat \<Rightarrow> World \<Rightarrow> World option" where
  "subscribe_by via l w =
     (let w1 = w\<lparr>listeners := set_add l (listeners w)\<rparr>
      in via l OnSubscribe (snapshot (state w1)) w1)"

text \<open>\<^verbatim>\<open>Set.prototype.forEach\<close> and \<^verbatim>\<open>update\<close> (lines 82-86).\<close>

fun forEach_by :: "nat \<Rightarrow> caller \<Rightarrow> nat \<Rightarrow> TransportState \<Rightarrow> World \<Rightarrow> World option" where
  "forEach_by 0 via i snap w = None"
| "forEach_by (Suc k) via i snap w =
     (if i < length (listeners w) then
        (case listeners w ! i of
           None \<Rightarrow> forEach_by k via (Suc i) snap w
         | Some l \<Rightarrow>
             (case via l OnUpdate snap w of
                None \<Rightarrow> None
              | Some w' \<Rightarrow> forEach_by k via (Suc i) snap w'))
      else Some w)"

definition update_by ::
  "nat \<Rightarrow> caller \<Rightarrow> (TransportState \<Rightarrow> TransportState) \<Rightarrow> World \<Rightarrow> World option" where
  "update_by k via partial w =
     (let w1 = w\<lparr>state := partial (state w)\<rparr>;
          snap = snapshot (state w1)
      in forEach_by k via 0 snap w1)"

text \<open>\<^verbatim>\<open>connect\<close> (lines 45-52) and \<^verbatim>\<open>disconnect\<close> (lines 54-57).\<close>

definition connect_by :: "nat \<Rightarrow> caller \<Rightarrow> ConnectParams \<Rightarrow> World \<Rightarrow> World option" where
  "connect_by k via params w =
     (if connState (state w) = Connected then Some w
      else
        (case update_by k via
                (\<lambda>s. s\<lparr>connState := Connecting, currentServer := Some (server params)\<rparr>) w of
           None \<Rightarrow> None
         | Some w1 \<Rightarrow>
             (let w2 = (if truthy (connectTimer w1)
                        then clearTimeout (the (connectTimer w1)) w1 else w1);
                  (h, w3) = setTimeout 400 w2
              in Some (w3\<lparr>connectTimer := Some h\<rparr>))))"

definition disconnect_by :: "nat \<Rightarrow> caller \<Rightarrow> World \<Rightarrow> World option" where
  "disconnect_by k via w =
     (let w1 = (if truthy (connectTimer w)
                then clearTimeout (the (connectTimer w)) w else w)
      in update_by k via (\<lambda>s. s\<lparr>connState := Disconnected\<rparr>) w1)"

text \<open>Running the script of a callback, and calling a listener.\<close>

fun run_calls :: "nat \<Rightarrow> caller \<Rightarrow> TransportState \<Rightarrow> call list \<Rightarrow> World \<Rightarrow> World option" where
  "run_calls k via snap [] w = Some w"
| "run_calls k via snap (Observe (Subscribe l) # cs) w =
     (case subscribe_by via l w of
        None \<Rightarrow> None
      | Some w' \<Rightarrow> run_calls k via snap cs w')"
| "run_calls k via snap (Observe (Unsubscribe l) # cs) w =
     run_calls k via snap cs (unsubscribe l w)"
| "run_calls k via snap (Observe SetStore # cs) w =
     run_calls k via snap cs (w\<lparr>store := Some snap\<rparr>)"
| "run_calls k via snap (Connect p # cs) w =
     (case connect_by k via p w of
        None \<Rightarrow> None
      | Some w' \<Rightarrow> run_calls k via snap cs w')"
| "run_calls k via snap (Disconnect # cs) w =
     (case disconnect_by k via w of
        None \<Rightarrow> None
      | Some w' \<Rightarrow> run_calls k via snap cs w')"

primrec invoke_at :: "nat \<Rightarrow> handlers \<Rightarrow> caller" where
  "invoke_at 0 hs = (\<lambda>l org snap w. None)"
| "invoke_at (Suc n) hs =
     (\<lambda>l org snap w.
        run_calls n (invoke_at n hs) snap (hs l snap) (w\<lparr>log := log w @ [(l, org, snap)]\<rparr>))"

text \<open>The commands as a client calls them.\<close>

definition subscribe_re :: "nat \<Rightarrow> handlers \<Rightarrow> nat \<Rightarrow> World \<Rightarrow> World option" where
  "subscribe_re n hs l w = subscribe_by (invoke_at n hs) l w"

definition connect_re :: "nat \<Rightarrow> handlers \<Rightarrow> ConnectParams \<Rightarrow> World \<Rightarrow> World option" where
  "connect_re n hs params w = connect_by n (invoke_at n hs) params w"

definition disconnect_re :: "nat \<Rightarrow> handlers \<Rightarrow> World \<Rightarrow> World option" where
  "disconnect_re n hs w = disconnect_by n (invoke_at n hs) w"

text \<open>
  Time passing: the runtime fires the first pending timer that is due, running the
  completion callback of \<^verbatim>\<open>connect\<close> (lines 49-51), until none is due; a callback may
  have set or cleared timers meanwhile.
\<close>

fun fire_by :: "nat \<Rightarrow> caller \<Rightarrow> nat \<Rightarrow> World \<Rightarrow> World option" where
  "fire_by 0 via T w = None"
| "fire_by (Suc k) via T w =
     (case find (\<lambda>t. snd t \<le> T) (timers w) of
        None \<Rightarrow> Some (w\<lparr>now := T\<rparr>)
      | Some t \<Rightarrow>
          (case update_by k via (\<lambda>s. s\<lparr>connState := Connected\<rparr>)
                  (w\<lparr>timers := removeAll t (timers w), now := max (now w) (snd t)\<rparr>) of
             None \<Rightarrow> None
           | Some w' \<Rightarrow> fire_by k via T w'))"

definition advance_re :: "nat \<Rightarrow> handlers \<Rightarrow> nat \<Rightarrow> World \<Rightarrow> World option" where
  "advance_re n hs dt w = fire_by n (invoke_at n hs) (now w + dt) w"

text \<open>
  A listener that calls \<^verbatim>\<open>disconnect()\<close> when it is told that the transport is
  connecting, subscribed (as listener 7) to a new transport; and a listener that does
  nothing.
\<close>

definition hasty :: handlers where
  "hasty l snap = (if connState snap = Connecting then [Disconnect] else [])"

definition quiet :: handlers where
  "quiet l snap = []"

definition hasty_start :: World where
  "hasty_start = the (subscribe_re 3 hasty 7 createMockTransport)"

text \<open>Callbacks that only observe, as scripts of calls.\<close>

definition observing :: "callbacks \<Rightarrow> handlers" where
  "observing cbs l snap = map Observe (cbs l)"

text \<open>
  The emission points on the heap. A listener may write to the objects of the snapshot
  it is handed: \<open>wr l s\<close> is what listener \<open>l\<close> does to the heap when called with the
  snapshot at address \<open>s\<close>. A delivery records the listener, the address it was handed
  and what the snapshot read as at that moment.

  \<^verbatim>\<open>getState\<close> (line 34) returns \<^verbatim>\<open>this.snapshot()\<close>; \<^verbatim>\<open>subscribe\<close> (line 39) calls the
  listener with \<^verbatim>\<open>this.snapshot()\<close>; \<^verbatim>\<open>update\<close> (lines 84-85) takes one snapshot and
  calls every listener in the set with it.
\<close>

type_synonym writer = "nat \<Rightarrow> nat \<Rightarrow> heap \<Rightarrow> heap"

type_synonym delivery = "nat \<times> nat \<times> TransportState option"

definition getState_h :: "heap \<Rightarrow> nat \<Rightarrow> (nat \<times> heap) option" where
  "getState_h h a = snapshot_h h a"

definition subscribe_h :: "writer \<Rightarrow> nat \<Rightarrow> heap \<Rightarrow> nat \<Rightarrow> (delivery \<times> heap) option" where
  "subscribe_h wr l h a =
     (case snapshot_h h a of
        None \<Rightarrow> None
      | Some (s, h1) \<Rightarrow> Some ((l, s, read_state h1 s), wr l s h1))"

fun deliver_h :: "writer \<Rightarrow> nat \<Rightarrow> nat option list \<Rightarrow> heap \<Rightarrow> delivery list \<times> heap" where
  "deliver_h wr s [] h = ([], h)"
| "deliver_h wr s (None # es) h = deliver_h wr s es h"
| "deliver_h wr s (Some l # es) h =
     (let (ds, h') = deliver_h wr s es (wr l s h)
      in ((l, s, read_state h s) # ds, h'))"

definition update_h :: "writer \<Rightarrow> nat option list \<Rightarrow> heap \<Rightarrow> nat \<Rightarrow> (delivery list \<times> heap) option" where
  "update_h wr es h a =
     (case snapshot_h h a of
        None \<Rightarrow> None
      | Some (s, h1) \<Rightarrow> Some (deliver_h wr s es h1))"

text \<open>
  A listener holds no reference but the snapshot it is handed: it writes only to the
  objects of that snapshot, allocates nothing, and stores into them no reference to an
  object outside the snapshot.
\<close>

definition confined :: "writer \<Rightarrow> bool" where
  "confined wr =
     (\<forall>l s h. length (wr l s h) = length h
        \<and> (\<forall>x. x \<notin> set (reach h s) \<longrightarrow> wr l s h ! x = h ! x)
        \<and> set (reach (wr l s h) s) \<subseteq> set (reach h s))"

text \<open>
  Listener 1 sets \<^verbatim>\<open>snapshot.me\<close> to muted and deafened; the others write nothing. A
  listener that writes nothing.
\<close>

definition vandal :: writer where
  "vandal l s h =
     (if l = 1 then
        (case deref h s of
           Some (StateObj c sv ch m cs us) \<Rightarrow>
             (case deref h m of
                Some (MeObj x) \<Rightarrow> h[m := MeObj \<lparr>muted = True, deafened = True\<rparr>]
              | _ \<Rightarrow> h)
         | _ \<Rightarrow> h)
      else h)"

definition reader :: writer where
  "reader l s h = h"

section \<open>Basic facts\<close>

lemma snapshot_id [simp]: "snapshot s = s"
  by (simp add: snapshot_def map_idI)

lemma getState_state [simp]: "getState w = state w"
  by (simp add: getState_def)

lemma delivers_refl [simp]: "delivers w w" by (simp add: delivers_def same_core_def)
lemma delivers_trans: "delivers a b \<Longrightarrow> delivers b c \<Longrightarrow> delivers a c"
  by (auto simp: delivers_def same_core_def)
lemma delivers_store [simp]: "delivers (w\<lparr>store := x\<rparr>) w' = delivers w w'" by (simp add: delivers_def same_core_def)
lemma delivers_listeners [simp]: "delivers (w\<lparr>listeners := x\<rparr>) w' = delivers w w'" by (simp add: delivers_def same_core_def)
lemma delivers_unsub [simp]: "delivers (unsubscribe k w) w' = delivers w w'" by (simp add: unsubscribe_def)
lemma delivers_log: "delivers (w\<lparr>log := log w @ [(l, org, state w)]\<rparr>) w' \<Longrightarrow> delivers w w'"
  by (auto simp: delivers_def same_core_def)

lemma delivers_aux:
  "invoke n cbs l org snap w = Some w' \<Longrightarrow> snap = state w \<Longrightarrow> delivers w w'"
  "run_actions n cbs snap as w = Some w' \<Longrightarrow> delivers w w'"
  "subscribe n cbs l w = Some w' \<Longrightarrow> delivers w w'"
proof (induction n cbs l org snap w and n cbs snap as w and n cbs l w arbitrary: w' and w' and w' rule: invoke_run_actions_subscribe.induct)
  case (1 cbs l org snap w)
  then show ?case by simp
next
  case (2 n cbs l org snap w)
  then show ?case by (auto intro: delivers_log)
next
  case (3 n cbs snap w)
  then show ?case by simp
next
  case (4 n cbs snap k as w)
  then show ?case by (auto split: option.splits intro: delivers_trans)
next
  case (5 n cbs snap k as w)
  then show ?case by simp
next
  case (6 n cbs snap as w)
  then show ?case by simp
next
  case (7 n cbs l w)
  then show ?case by (simp add: Let_def)
qed

lemma forEach_delivers:
  "forEach n cbs i snap w = Some w' \<Longrightarrow> snap = state w \<Longrightarrow> delivers w w'"
proof (induction n cbs i snap w arbitrary: w' rule: forEach.induct)
  case (1 cbs i snap w)
  then show ?case by simp
next
  case (2 n cbs i snap w)
  show ?case
  proof (cases "i < length (listeners w)")
    case False
    with 2 show ?thesis by simp
  next
    case True
    show ?thesis
    proof (cases "listeners w ! i")
      case None
      with 2 True show ?thesis by simp
    next
      case (Some l)
      with 2(3) True obtain w1 where
        w1: "invoke n cbs l OnUpdate snap w = Some w1" and
        rest: "forEach n cbs (Suc i) snap w1 = Some w'"
        by (auto split: option.splits)
      from w1 2(4) have d1: "delivers w w1" by (rule delivers_aux(1))
      then have "snap = state w1" using 2(4) by (simp add: delivers_def same_core_def)
      with 2(2)[OF True Some w1 rest] have "delivers w1 w'" by simp
      with d1 show ?thesis by (rule delivers_trans)
    qed
  qed
qed

lemma update_delivers:
  "update n cbs partial w = Some w' \<Longrightarrow> delivers (w\<lparr>state := partial (state w)\<rparr>) w'"
  by (simp add: update_def Let_def forEach_delivers)

subsection \<open>More nested calls allowed, same result\<close>

lemma fuel_mono_aux:
  "invoke n cbs l org snap w = Some w' \<Longrightarrow> n \<le> m \<Longrightarrow> invoke m cbs l org snap w = Some w'"
  "run_actions n cbs snap as w = Some w' \<Longrightarrow> n \<le> m \<Longrightarrow> run_actions m cbs snap as w = Some w'"
  "subscribe n cbs l w = Some w' \<Longrightarrow> n \<le> m \<Longrightarrow> subscribe m cbs l w = Some w'"
proof (induction n cbs l org snap w and n cbs snap as w and n cbs l w
    arbitrary: w' m and w' m and w' m rule: invoke_run_actions_subscribe.induct)
  case (1 cbs l org snap w)
  then show ?case by simp
next
  case (2 n cbs l org snap w)
  from 2(3) obtain k where m: "m = Suc k" "n \<le> k" by (cases m) auto
  from 2(2) have "run_actions n cbs snap (cbs l) (w\<lparr>log := log w @ [(l, org, snap)]\<rparr>) = Some w'"
    by simp
  from 2(1)[OF this m(2)] show ?case by (simp only: m(1) invoke.simps)
next
  case (3 n cbs snap w)
  then show ?case by simp
next
  case (4 n cbs snap k as w)
  from 4(3) obtain w1 where s: "subscribe n cbs k w = Some w1"
    and r: "run_actions n cbs snap as w1 = Some w'" by (auto split: option.splits)
  have "subscribe m cbs k w = Some w1" by (rule 4(1)[OF s 4(4)])
  moreover have "run_actions m cbs snap as w1 = Some w'" by (rule 4(2)[OF s r 4(4)])
  ultimately show ?case by (simp only: run_actions.simps option.case)
next
  case (5 n cbs snap k as w)
  from 5(2) have "run_actions n cbs snap as (unsubscribe k w) = Some w'" by simp
  from 5(1)[OF this 5(3)] show ?case by (simp only: run_actions.simps)
next
  case (6 n cbs snap as w)
  from 6(2) have "run_actions n cbs snap as (w\<lparr>store := Some snap\<rparr>) = Some w'" by simp
  from 6(1)[OF this 6(3)] show ?case by (simp only: run_actions.simps)
next
  case (7 n cbs l w)
  let ?w1 = "w\<lparr>listeners := set_add l (listeners w)\<rparr>"
  from 7(2) have "invoke n cbs l OnSubscribe (snapshot (state ?w1)) ?w1 = Some w'"
    by (simp add: Let_def)
  from 7(1)[OF refl this 7(3)] show ?case by (simp add: Let_def)
qed

lemma forEach_fuel_mono:
  "forEach n cbs i snap w = Some w' \<Longrightarrow> n \<le> m \<Longrightarrow> forEach m cbs i snap w = Some w'"
proof (induction n cbs i snap w arbitrary: w' m rule: forEach.induct)
  case (1 cbs i snap w)
  then show ?case by simp
next
  case (2 n cbs i snap w)
  from 2(4) obtain k where m: "m = Suc k" "n \<le> k" by (cases m) auto
  show ?case
  proof (cases "i < length (listeners w)")
    case False
    with 2(3) show ?thesis by (simp add: m(1))
  next
    case True
    show ?thesis
    proof (cases "listeners w ! i")
      case None
      with 2(3) True have "forEach n cbs (Suc i) snap w = Some w'" by simp
      from 2(1)[OF True None this m(2)] True None show ?thesis by (simp add: m(1))
    next
      case (Some l)
      with 2(3) True obtain w1 where
        w1: "invoke n cbs l OnUpdate snap w = Some w1" and
        rest: "forEach n cbs (Suc i) snap w1 = Some w'"
        by (auto split: option.splits)
      from fuel_mono_aux(1)[OF w1 m(2)] 2(2)[OF True Some w1 rest m(2)] True Some
      show ?thesis by (simp add: m(1))
    qed
  qed
qed

lemma update_fuel_mono:
  "update n cbs f w = Some w' \<Longrightarrow> n \<le> m \<Longrightarrow> update m cbs f w = Some w'"
  unfolding update_def Let_def by (rule forEach_fuel_mono)

lemma live_Nil [simp]: "live [] = []" by (simp add: live_def)
lemma live_Cons_None [simp]: "live (None # es) = live es" by (simp add: live_def)
lemma live_Cons_Some [simp]: "live (Some l # es) = l # live es" by (simp add: live_def)
lemma live_append [simp]: "live (xs @ ys) = live xs @ live ys" by (simp add: live_def)
lemma set_live [simp]: "l \<in> set (live es) \<longleftrightarrow> Some l \<in> set es"
  by (induction es) (auto simp: live_def split: option.splits)

lemma invoke_passive:
  "cbs l = [] \<Longrightarrow> invoke (Suc n) cbs l org snap w = Some (w\<lparr>log := log w @ [(l, org, snap)]\<rparr>)"
  by simp

lemma forEach_passive:
  "passive_cbs cbs \<Longrightarrow> length (listeners w) - i < n \<Longrightarrow>
   forEach n cbs i snap w =
     Some (w\<lparr>log := log w @ map (\<lambda>l. (l, OnUpdate, snap)) (live (drop i (listeners w)))\<rparr>)"
proof (induction n arbitrary: i w)
  case 0
  then show ?case by simp
next
  case (Suc n)
  show ?case
  proof (cases "i < length (listeners w)")
    case False
    then show ?thesis by simp
  next
    case True
    then have d: "drop i (listeners w) = listeners w ! i # drop (Suc i) (listeners w)"
      by (simp add: Cons_nth_drop_Suc)
    from True Suc.prems(2) obtain m where m: "n = Suc m" by (cases n) auto
    have cb: "\<And>l. cbs l = []" using Suc.prems(1) by (simp add: passive_cbs_def)
    show ?thesis
    proof (cases "listeners w ! i")
      case None
      have "length (listeners w) - Suc i < n" using True Suc.prems(2) by arith
      from Suc.IH[OF Suc.prems(1) this] None True d show ?thesis by simp
    next
      case (Some l)
      let ?w1 = "w\<lparr>log := log w @ [(l, OnUpdate, snap)]\<rparr>"
      have "length (listeners ?w1) - Suc i < n" using True Suc.prems(2) by simp
      from Suc.IH[OF Suc.prems(1) this] Some True d m cb show ?thesis by simp
    qed
  qed
qed

lemma update_passive:
  "passive_cbs cbs \<Longrightarrow> length (listeners w) < n \<Longrightarrow>
   update n cbs partial w =
     Some (w\<lparr>state := partial (state w),
            log := log w @ map (\<lambda>l. (l, OnUpdate, partial (state w))) (live (listeners w))\<rparr>)"
  by (simp add: update_def Let_def forEach_passive)

lemma update_result:
  assumes "update n cbs partial w = Some w'"
  shows "state w' = partial (state w)" "connectTimer w' = connectTimer w" "timers w' = timers w"
    "now w' = now w" "nextHandle w' = nextHandle w"
    "log w' = log w @ emitted w w'" "\<forall>e \<in> set (emitted w w'). snd (snd e) = partial (state w)"
  using update_delivers[OF assms] by (auto simp: delivers_def same_core_def emitted_def)

lemma two_observers_eq:
  "two_observers = createMockTransport\<lparr>listeners := [Some 7, Some 8],
      log := [(7, OnSubscribe, initialState), (8, OnSubscribe, initialState)]\<rparr>"
  by (simp add: two_observers_def observers_def createMockTransport_def set_add_def Let_def)

lemma connected_world_eq:
  "connected_world =
     \<lparr>state = initialState\<lparr>connState := Connected, currentServer := Some ''s''\<rparr>,
      listeners = [Some 7], connectTimer = Some 1, timers = [], now = 400,
      nextHandle = 2, store = None,
      log = [(7, OnSubscribe, initialState),
             (7, OnUpdate, initialState\<lparr>connState := Connecting, currentServer := Some ''s''\<rparr>),
             (7, OnUpdate, initialState\<lparr>connState := Connected, currentServer := Some ''s''\<rparr>)]\<rparr>"
  by (simp add: connected_world_def observers_def createMockTransport_def connect_def update_def
      set_add_def Let_def setTimeout_def truthy_def advance_def connectCompletion_def
      initialState_def)

lemma has_self_map:
  "(\<And>u. id_u (f u) = id_u u) \<Longrightarrow> has_self s \<Longrightarrow> has_self (s\<lparr>users := map f (users s)\<rparr>)"
  by (simp add: has_self_def)

lemma has_self_fields [simp]:
  "has_self (s\<lparr>currentChannelId := x\<rparr>) = has_self s"
  "has_self (s\<lparr>connState := y\<rparr>) = has_self s"
  "has_self (s\<lparr>currentServer := z\<rparr>) = has_self s"
  "has_self (s\<lparr>me := m\<rparr>) = has_self s"
  by (simp_all add: has_self_def)

section \<open>Connect while connected\<close>

text \<open>
  C3. In every state whose connState is "connected", \<^verbatim>\<open>connect(params)\<close> returns, for
  any params, and leaves the whole world as it was: every field of the transport state
  (the current server included), the listener set, the timers, and the record of
  listener invocations, so no snapshot is emitted.
\<close>

theorem connect_when_connected:
  "connState (state w) = Connected \<Longrightarrow> connect n cbs params w = Some w"
  by (simp add: connect_def)

theorem connect_when_connected_witness:
  "connState (state connected_world) = Connected
   \<and> connect 0 observers \<lparr>server = ''other'', username = Some ''u''\<rparr> connected_world
       = Some connected_world"
proof -
  have c: "connState (state connected_world) = Connected"
    by (simp add: connected_world_eq)
  from c connect_when_connected[OF c] show ?thesis by simp
qed

section \<open>Joining a channel\<close>

text \<open>
  C4. For every channel id \<open>c\<close>, existing or not, \<^verbatim>\<open>joinChannel(c)\<close> has no failing
  branch. Whenever it returns, the aggregate current channel id and the channel id of
  every user with id 1 are \<open>c\<close>, and every snapshot delivered during the call is the
  snapshot of that new state: no listener sees one updated without the other. With
  listeners that only observe it returns, and each listener in the set receives exactly
  one snapshot.
\<close>

theorem joinChannel_atomic:
  "(\<forall>w'. joinChannel n cbs c w = Some w' \<longrightarrow>
      currentChannelId (state w') = Some c
      \<and> (\<forall>u \<in> set (users (state w')). id_u u = 1 \<longrightarrow> channelId u = c)
      \<and> (has_self (state w) \<longrightarrow> has_self (state w'))
      \<and> log w' = log w @ emitted w w'
      \<and> (\<forall>e \<in> set (emitted w w'). snd (snd e) = getState w'))
   \<and> (passive_cbs cbs \<and> length (listeners w) < n \<longrightarrow>
      (\<exists>w'. joinChannel n cbs c w = Some w'
          \<and> emitted w w' = map (\<lambda>l. (l, OnUpdate, getState w')) (live (listeners w))))"
proof (intro conjI allI impI)
  fix w'
  assume j: "joinChannel n cbs c w = Some w'"
  let ?us = "map (\<lambda>user. if id_u user = 1 then user\<lparr>channelId := c\<rparr> else user) (users (state w))"
  let ?p = "\<lambda>s. s\<lparr>currentChannelId := Some c, users := ?us\<rparr>"
  from j have u: "update n cbs ?p w = Some w'" by (simp add: joinChannel_def Let_def)
  have st: "state w' = ?p (state w)" by (rule update_result(1)[OF u])
  show "currentChannelId (state w') = Some c" by (simp add: st)
  show "\<forall>u \<in> set (users (state w')). id_u u = 1 \<longrightarrow> channelId u = c" by (auto simp: st)
  show "has_self (state w')" if "has_self (state w)"
  proof -
    have "has_self ((state w)\<lparr>users := ?us\<rparr>)"
      by (rule has_self_map) (use that in auto)
    then show ?thesis by (simp add: st has_self_def)
  qed
  show "log w' = log w @ emitted w w'" by (rule update_result(6)[OF u])
  show "\<forall>e \<in> set (emitted w w'). snd (snd e) = getState w'"
    using update_result(7)[OF u] st by simp
next
  assume "passive_cbs cbs \<and> length (listeners w) < n"
  then show "\<exists>w'. joinChannel n cbs c w = Some w'
          \<and> emitted w w' = map (\<lambda>l. (l, OnUpdate, getState w')) (live (listeners w))"
    by (simp add: joinChannel_def Let_def update_passive emitted_def)
qed

theorem joinChannel_atomic_witness:
  "passive_cbs observers \<and> length (listeners two_observers) < 3 \<and> has_self (state two_observers)
   \<and> (\<exists>w'. joinChannel 3 observers 99 two_observers = Some w'
         \<and> currentChannelId (state w') = Some 99
         \<and> (\<forall>u \<in> set (users (state w')). id_u u = 1 \<longrightarrow> channelId u = 99)
         \<and> has_self (state w')
         \<and> emitted two_observers w' = [(7, OnUpdate, getState w'), (8, OnUpdate, getState w')])"
proof -
  have p: "passive_cbs observers" by (simp add: passive_cbs_def observers_def)
  have l: "length (listeners two_observers) < 3" by (simp add: two_observers_eq)
  have h: "has_self (state two_observers)"
    by (simp add: two_observers_eq has_self_def createMockTransport_def initialState_def
        defaultUsers_def)
  have lv: "live (listeners two_observers) = [7, 8]" by (simp add: two_observers_eq)
  from joinChannel_atomic[of 3 observers 99 two_observers] p l h lv show ?thesis
    by auto
qed

subsection \<open>Timers\<close>

lemma timers_ok_same_core: "same_core w w' \<Longrightarrow> timers_ok w' = timers_ok w"
  by (simp add: same_core_def timers_ok_def)

lemma timers_ok_cases:
  assumes "timers_ok w"
  obtains "timers w = []"
  | h d where "timers w = [(h, d)]" "connectTimer w = Some h" "h \<noteq> 0" "h < nextHandle w"
      "d \<le> now w + 400" "connState (state w) = Connecting"
proof (cases "timers w")
  case Nil
  then show ?thesis using that by simp
next
  case (Cons t ts)
  have "ts = []"
  proof (cases ts)
    case Nil
    then show ?thesis by simp
  next
    case (Cons t' ts')
    with \<open>timers w = t # ts\<close> assms have "fst t = fst t'" "fst t \<noteq> fst t'"
      by (auto simp: timers_ok_def)
    then show ?thesis by simp
  qed
  with Cons assms that(2)[of "fst t" "snd t"] show ?thesis
    by (auto simp: timers_ok_def)
qed

lemma clearTimeout_fields [simp]:
  "state (clearTimeout h w) = state w" "listeners (clearTimeout h w) = listeners w"
  "log (clearTimeout h w) = log w" "now (clearTimeout h w) = now w"
  "nextHandle (clearTimeout h w) = nextHandle w" "store (clearTimeout h w) = store w"
  "connectTimer (clearTimeout h w) = connectTimer w"
  by (simp_all add: clearTimeout_def)

lemma clear_pending:
  assumes "timers_ok w"
  shows "timers (if truthy (connectTimer w) then clearTimeout (the (connectTimer w)) w else w) = []"
  using assms by (rule timers_ok_cases) (auto simp: truthy_def clearTimeout_def)

lemma emitted_simps [simp]:
  "emitted w (w'\<lparr>now := x\<rparr>) = emitted w w'"
  "emitted w (w'\<lparr>timers := y\<rparr>) = emitted w w'"
  "emitted w (w'\<lparr>connectTimer := z\<rparr>) = emitted w w'"
  "emitted w (w'\<lparr>nextHandle := k\<rparr>) = emitted w w'"
  "emitted (w\<lparr>now := x\<rparr>) w' = emitted w w'"
  "emitted (w\<lparr>timers := y\<rparr>) w' = emitted w w'"
  "emitted w w = []"
  by (simp_all add: emitted_def)

lemma connect_result:
  assumes ok: "timers_ok w" and nc: "connState (state w) \<noteq> Connected"
    and c: "connect n cbs p w = Some w'"
  shows "state w' = (state w)\<lparr>connState := Connecting, currentServer := Some (server p)\<rparr>"
    "timers w' = [(nextHandle w, now w + 400)]" "connectTimer w' = Some (nextHandle w)"
    "nextHandle w' = Suc (nextHandle w)" "now w' = now w"
    "log w' = log w @ emitted w w'"
    "\<forall>e \<in> set (emitted w w'). snd (snd e) = state w'"
proof -
  let ?p = "\<lambda>s. s\<lparr>connState := Connecting, currentServer := Some (server p)\<rparr>"
  from c nc obtain w1 where u: "update n cbs ?p w = Some w1"
    and w': "w' = (let w2 = (if truthy (connectTimer w1) then clearTimeout (the (connectTimer w1)) w1 else w1);
                       (h, w3) = setTimeout 400 w2 in w3\<lparr>connectTimer := Some h\<rparr>)"
    by (auto simp: connect_def Let_def split: option.splits prod.splits)
  note r = update_result[OF u]
  have "same_core (w\<lparr>state := state w1\<rparr>) w1" using r by (simp add: same_core_def)
  have ok1: "timers_ok (w1\<lparr>state := state w\<rparr>)"
    using ok r by (simp add: timers_ok_def)
  have cl: "timers (if truthy (connectTimer w1) then clearTimeout (the (connectTimer w1)) w1 else w1) = []"
    using clear_pending[OF ok1] by (simp add: clearTimeout_def split: if_splits)
  show "state w' = ?p (state w)" using r by (simp add: w' Let_def setTimeout_def)
  then show "\<forall>e \<in> set (emitted w w'). snd (snd e) = state w'"
    using r by (simp add: w' Let_def setTimeout_def emitted_def)
  show "timers w' = [(nextHandle w, now w + 400)]"
    using r cl by (simp add: w' Let_def setTimeout_def)
  show "connectTimer w' = Some (nextHandle w)" using r by (simp add: w' Let_def setTimeout_def)
  show "nextHandle w' = Suc (nextHandle w)" using r by (simp add: w' Let_def setTimeout_def)
  show "now w' = now w" using r by (simp add: w' Let_def setTimeout_def)
  show "log w' = log w @ emitted w w'" using r by (simp add: w' Let_def setTimeout_def emitted_def)
qed

lemma advance_no_timer:
  "timers w = [] \<Longrightarrow> advance n cbs dt w = Some (w\<lparr>now := now w + dt\<rparr>)"
  by (simp add: advance_def)

lemma advance_early:
  "timers w = [(h, d)] \<Longrightarrow> now w + dt < d \<Longrightarrow> advance n cbs dt w = Some (w\<lparr>now := now w + dt\<rparr>)"
  by (simp add: advance_def)

lemma advance_fire:
  "timers w = [(h, d)] \<Longrightarrow> d \<le> now w + dt \<Longrightarrow>
   advance n cbs dt w =
     (case connectCompletion n cbs (w\<lparr>timers := [], now := max (now w) d\<rparr>) of
        None \<Rightarrow> None
      | Some w' \<Rightarrow> Some (w'\<lparr>now := now w + dt\<rparr>))"
  by (simp add: advance_def split: option.splits)

lemma advance_fire_result:
  assumes "timers w = [(h, d)]" "d \<le> now w + dt" "advance n cbs dt w = Some w'"
  shows "state w' = (state w)\<lparr>connState := Connected\<rparr>" "timers w' = []"
    "connectTimer w' = connectTimer w" "nextHandle w' = nextHandle w" "now w' = now w + dt"
    "log w' = log w @ emitted w w'"
    "\<forall>e \<in> set (emitted w w'). snd (snd e) = state w'"
proof -
  let ?w0 = "w\<lparr>timers := [], now := max (now w) d\<rparr>"
  from assms obtain w1 where u: "update n cbs (\<lambda>s. s\<lparr>connState := Connected\<rparr>) ?w0 = Some w1"
    and w': "w' = w1\<lparr>now := now w + dt\<rparr>"
    by (auto simp: advance_fire connectCompletion_def split: option.splits)
  note r = update_result[OF u]
  show "state w' = (state w)\<lparr>connState := Connected\<rparr>" using r by (simp add: w')
  then show "\<forall>e \<in> set (emitted w w'). snd (snd e) = state w'"
    using r by (simp add: w' emitted_def)
  show "timers w' = []" "connectTimer w' = connectTimer w" "nextHandle w' = nextHandle w"
    "now w' = now w + dt" using r by (simp_all add: w')
  show "log w' = log w @ emitted w w'" using r by (simp add: w' emitted_def)
qed

lemma connect_passive:
  assumes "passive_cbs cbs" "length (listeners w) < n"
  shows "\<exists>w1. connect n cbs p w = Some w1"
  using assms by (simp add: connect_def update_passive Let_def split: prod.splits)

lemma connect_listeners_passive:
  assumes "passive_cbs cbs" "length (listeners w) < n" "connect n cbs p w = Some w1"
  shows "listeners w1 = listeners w"
  using assms
  by (auto simp: connect_def update_passive Let_def setTimeout_def clearTimeout_def
      split: prod.splits if_splits)

lemma advance_fire_passive:
  assumes "timers w = [(h, d)]" "d \<le> now w + dt" "passive_cbs cbs" "length (listeners w) < n"
  shows "\<exists>w'. advance n cbs dt w = Some w'
     \<and> emitted w w' = map (\<lambda>l. (l, OnUpdate, state w')) (live (listeners w))"
  using assms
  by (simp add: advance_fire connectCompletion_def update_passive emitted_def)

lemma timers_ok_initial: "timers_ok createMockTransport"
  by (simp add: timers_ok_def createMockTransport_def)

lemma timers_ok_two_observers: "timers_ok two_observers"
  by (simp add: two_observers_eq timers_ok_def createMockTransport_def)

lemma passive_observers: "passive_cbs observers"
  by (simp add: passive_cbs_def observers_def)

lemma pending_world_eq:
  "pending_world =
     \<lparr>state = initialState\<lparr>connState := Connecting, currentServer := Some ''s''\<rparr>,
      listeners = [Some 7], connectTimer = Some 1, timers = [(1, 400)], now = 100,
      nextHandle = 2, store = None,
      log = [(7, OnSubscribe, initialState),
             (7, OnUpdate, initialState\<lparr>connState := Connecting, currentServer := Some ''s''\<rparr>)]\<rparr>"
  by (simp add: pending_world_def observers_def createMockTransport_def connect_def update_def
      set_add_def Let_def setTimeout_def truthy_def advance_def connectCompletion_def
      initialState_def)

lemma timers_ok_pending_world: "timers_ok pending_world"
  by (simp add: pending_world_eq timers_ok_def)

lemma disconnect_result:
  assumes ok: "timers_ok w" and d: "disconnect n cbs w = Some w'"
  shows "state w' = (state w)\<lparr>connState := Disconnected\<rparr>" "timers w' = []"
    "now w' = now w" "nextHandle w' = nextHandle w"
    "log w' = log w @ emitted w w'"
    "\<forall>e \<in> set (emitted w w'). snd (snd e) = state w'"
proof -
  let ?w1 = "if truthy (connectTimer w) then clearTimeout (the (connectTimer w)) w else w"
  from d have u: "update n cbs (\<lambda>s. s\<lparr>connState := Disconnected\<rparr>) ?w1 = Some w'"
    by (simp add: disconnect_def Let_def)
  note r = update_result[OF u]
  have s1: "state ?w1 = state w" "log ?w1 = log w" "now ?w1 = now w" "nextHandle ?w1 = nextHandle w"
    by simp_all
  show "state w' = (state w)\<lparr>connState := Disconnected\<rparr>" using r(1) s1 by simp
  show "timers w' = []" using r(3) clear_pending[OF ok] by simp
  show "now w' = now w" "nextHandle w' = nextHandle w" using r(4,5) s1 by simp_all
  have e: "emitted ?w1 w' = emitted w w'" by (simp add: emitted_def)
  show "log w' = log w @ emitted w w'" using r(6) s1 e by simp
  show "\<forall>e \<in> set (emitted w w'). snd (snd e) = state w'" using r(1,7) e by simp
qed

lemma disconnect_passive:
  assumes "passive_cbs cbs" "length (listeners w) < n"
  shows "\<exists>w'. disconnect n cbs w = Some w'"
  using assms by (simp add: disconnect_def update_passive Let_def)

lemma subscribe_result:
  assumes "subscribe n cbs l w = Some w'"
  shows "state w' = state w" "timers w' = timers w" "log w' = log w @ emitted w w'"
    "\<forall>e \<in> set (emitted w w'). snd (snd e) = state w"
  using delivers_aux(3)[OF assms] by (auto simp: delivers_def same_core_def emitted_def)

lemma idle_timers_ok: "idle w \<Longrightarrow> nextHandle w \<noteq> 0 \<Longrightarrow> timers_ok w"
  by (simp add: idle_def timers_ok_def)

lemma exec_idle:
  assumes i: "idle w" and nc: "\<not> is_connect c" and e: "exec n cbs c w = Some w'"
  shows "idle w' \<and> log w' = log w @ emitted w w'
         \<and> (\<forall>e \<in> set (emitted w w'). connState (snd (snd e)) = Disconnected)"
proof (cases c)
  case (CSubscribe l)
  with e i subscribe_result[of n cbs l w w'] show ?thesis by (simp add: idle_def)
next
  case (CUnsubscribe l)
  with e i show ?thesis by (auto simp: idle_def unsubscribe_def emitted_def)
next
  case CGetState
  with e i show ?thesis by (auto simp: idle_def)
next
  case (CConnect p)
  with nc show ?thesis by simp
next
  case CDisconnect
  with e have u: "update n cbs (\<lambda>s. s\<lparr>connState := Disconnected\<rparr>)
      (if truthy (connectTimer w) then clearTimeout (the (connectTimer w)) w else w) = Some w'"
    by (simp add: disconnect_def Let_def)
  have "emitted (if truthy (connectTimer w) then clearTimeout (the (connectTimer w)) w else w) w'
        = emitted w w'" by (simp add: emitted_def)
  with update_result[OF u] i show ?thesis by (simp add: idle_def clearTimeout_def)
next
  case (CJoinChannel x)
  with e have "update n cbs (\<lambda>s. s\<lparr>currentChannelId := Some x,
      users := map (\<lambda>user. if id_u user = 1 then user\<lparr>channelId := x\<rparr> else user) (users (state w))\<rparr>) w
      = Some w'" by (simp add: joinChannel_def Let_def)
  from update_result[OF this] i show ?thesis by (simp add: idle_def)
next
  case (CSetMute b)
  with e obtain f where "update n cbs (\<lambda>s. s\<lparr>me := (me (state w))\<lparr>muted := b\<rparr>, users := f\<rparr>) w = Some w'"
    by (simp add: setMute_def updateMe_def Let_def)
  from update_result[OF this] i show ?thesis by (simp add: idle_def)
next
  case (CSetDeafen b)
  with e obtain f where "update n cbs (\<lambda>s. s\<lparr>me := (me (state w))\<lparr>deafened := b\<rparr>, users := f\<rparr>) w = Some w'"
    by (simp add: setDeafen_def updateMe_def Let_def)
  from update_result[OF this] i show ?thesis by (simp add: idle_def)
next
  case (CAdvance dt)
  with e i show ?thesis by (auto simp: idle_def advance_no_timer)
qed

lemma emitted_append: "log b = log a @ es \<Longrightarrow> emitted a b = es"
  by (simp add: emitted_def)

lemma emitted_trans:
  assumes "log b = log a @ emitted a b" "log c = log b @ emitted b c"
  shows "emitted a c = emitted a b @ emitted b c"
proof -
  from assms have "log c = log a @ (emitted a b @ emitted b c)" by (metis append_assoc)
  then show ?thesis by (rule emitted_append)
qed

lemma execs_idle:
  "idle w \<Longrightarrow> \<forall>c \<in> set cs. \<not> is_connect (snd c) \<Longrightarrow> execs cbs cs w = Some w' \<Longrightarrow>
   idle w' \<and> log w' = log w @ emitted w w'
   \<and> (\<forall>e \<in> set (emitted w w'). connState (snd (snd e)) = Disconnected)"
proof (induction cs arbitrary: w)
  case Nil
  then show ?case by simp
next
  case (Cons c cs)
  from Cons.prems(3) obtain w1 where e1: "exec (fst c) cbs (snd c) w = Some w1"
    and e2: "execs cbs cs w1 = Some w'" by (auto split: option.splits)
  from Cons.prems(2) have nc: "\<not> is_connect (snd c)" and ncs: "\<forall>c \<in> set cs. \<not> is_connect (snd c)"
    by simp_all
  note s1 = exec_idle[OF Cons.prems(1) nc e1]
  note s2 = Cons.IH[OF s1[THEN conjunct1] ncs e2]
  have et: "emitted w w' = emitted w w1 @ emitted w1 w'"
    using s1 s2 by (intro emitted_trans) blast+
  have "log w' = log w @ emitted w w'"
    using s1 s2 et by (metis append_assoc)
  moreover have "\<forall>e \<in> set (emitted w w'). connState (snd (snd e)) = Disconnected"
    using s1 s2 unfolding et by (metis Un_iff set_append)
  ultimately show ?case using s2 by blast
qed

section \<open>Supersession of a pending connect, with listeners that only observe\<close>

text \<open>
  With listeners that only observe, in every state whose timers are those the transport
  itself set (a connect attempt may be pending), \<^verbatim>\<open>disconnect()\<close> leaves connState
  "disconnected" and no pending completion; whatever happens afterwards, short of a new
  \<^verbatim>\<open>connect\<close>, the state stays "disconnected" and no snapshot emitted says otherwise,
  however much time passes. A second \<^verbatim>\<open>connect\<close> issued while "connecting" leaves
  exactly one pending completion, its own, due a full latency later: until then the
  state stays "connecting" with the new server, and then it becomes "connected" with
  the new server.
\<close>

lemma observed_connect_superseded:
  assumes "timers_ok w"
  shows "(\<forall>w1. disconnect n cbs w = Some w1 \<longrightarrow>
            connState (getState w1) = Disconnected \<and> timers w1 = []
            \<and> (\<forall>cs w2. (\<forall>c \<in> set cs. \<not> is_connect (snd c)) \<and> execs cbs cs w1 = Some w2 \<longrightarrow>
                  connState (getState w2) = Disconnected
                  \<and> (\<forall>e \<in> set (emitted w1 w2). connState (snd (snd e)) = Disconnected)))
         \<and> (passive_cbs cbs \<and> length (listeners w) < n \<longrightarrow> (\<exists>w1. disconnect n cbs w = Some w1))
         \<and> (\<forall>w1. connState (state w) = Connecting \<and> connect n cbs p w = Some w1 \<longrightarrow>
              timers w1 = [(nextHandle w, now w1 + 400)] \<and> connectTimer w1 = Some (nextHandle w)
              \<and> (\<forall>t \<in> set (timers w). t \<notin> set (timers w1))
              \<and> (\<forall>m dt w2. dt < 400 \<and> advance m cbs dt w1 = Some w2 \<longrightarrow>
                    connState (getState w2) = Connecting
                    \<and> currentServer (getState w2) = Some (server p) \<and> emitted w1 w2 = [])
              \<and> (\<forall>m dt w2. 400 \<le> dt \<and> advance m cbs dt w1 = Some w2 \<longrightarrow>
                    connState (getState w2) = Connected
                    \<and> currentServer (getState w2) = Some (server p)))"
proof (intro conjI allI impI)
  fix w1
  assume d: "disconnect n cbs w = Some w1"
  note r = disconnect_result[OF assms d]
  show "connState (getState w1) = Disconnected" using r(1) by simp
  show "timers w1 = []" by (rule r(2))
  have i: "idle w1" using r(1,2) by (simp add: idle_def)
  {
    fix cs w2
    assume a: "(\<forall>c \<in> set cs. \<not> is_connect (snd c)) \<and> execs cbs cs w1 = Some w2"
    then have nc: "\<forall>c \<in> set cs. \<not> is_connect (snd c)" and e: "execs cbs cs w1 = Some w2"
      by simp_all
    note x = execs_idle[OF i nc e]
    show "connState (getState w2) = Disconnected" using x by (simp add: idle_def)
    show "\<forall>e \<in> set (emitted w1 w2). connState (snd (snd e)) = Disconnected" using x by blast
  }
next
  assume "passive_cbs cbs \<and> length (listeners w) < n"
  then show "\<exists>w1. disconnect n cbs w = Some w1" by (simp add: disconnect_passive)
next
  fix w1
  assume a: "connState (state w) = Connecting \<and> connect n cbs p w = Some w1"
  then have nc: "connState (state w) \<noteq> Connected" and c: "connect n cbs p w = Some w1"
    by simp_all
  note r = connect_result[OF assms nc c]
  show t: "timers w1 = [(nextHandle w, now w1 + 400)]" using r(2,5) by simp
  show "connectTimer w1 = Some (nextHandle w)" by (rule r(3))
  show "\<forall>t \<in> set (timers w). t \<notin> set (timers w1)"
    using assms r(2) by (auto simp: timers_ok_def)
  {
    fix m w2 and dt :: nat
    assume b: "dt < 400 \<and> advance m cbs dt w1 = Some w2"
    then have "w2 = w1\<lparr>now := now w1 + dt\<rparr>" using advance_early[OF t, of dt m cbs] by simp
    then show "connState (getState w2) = Connecting"
      "currentServer (getState w2) = Some (server p)" "emitted w1 w2 = []"
      using r(1) by simp_all
  }
  {
    fix m w2 and dt :: nat
    assume b: "400 \<le> dt \<and> advance m cbs dt w1 = Some w2"
    then have d: "now w1 + 400 \<le> now w1 + dt" and adv: "advance m cbs dt w1 = Some w2" by simp_all
    note f = advance_fire_result[OF t d adv]
    show "connState (getState w2) = Connected" "currentServer (getState w2) = Some (server p)"
      using f(1) r(1) by simp_all
  }
qed

lemma observed_connect_superseded_example:
  "timers_ok pending_world \<and> timers pending_world = [(1, 400)] \<and> now pending_world = 100
   \<and> connState (state pending_world) = Connecting
   \<and> (\<exists>w1. disconnect 3 observers pending_world = Some w1
        \<and> connState (getState w1) = Disconnected \<and> timers w1 = []
        \<and> (\<exists>w2. execs observers [(3, CAdvance 300), (3, CSetMute True), (3, CAdvance 1000)] w1 = Some w2
              \<and> connState (getState w2) = Disconnected))
   \<and> (\<exists>w1. connect 3 observers \<lparr>server = ''t'', username = None\<rparr> pending_world = Some w1
        \<and> timers w1 = [(2, 500)]
        \<and> (\<exists>w2. advance 3 observers 399 w1 = Some w2
              \<and> connState (getState w2) = Connecting \<and> currentServer (getState w2) = Some ''t''))"
proof -
  let ?p = "\<lparr>server = ''t'', username = None\<rparr>"
  let ?cs = "[(3, CAdvance 300), (3, CSetMute True), (3, CAdvance 1000)]"
  note th = observed_connect_superseded[OF timers_ok_pending_world, of 3 observers ?p]
  have len: "length (listeners pending_world) < 3" by (simp add: pending_world_eq)
  have cg: "connState (state pending_world) = Connecting" by (simp add: pending_world_eq)
  have basics: "timers pending_world = [(1, 400)] \<and> now pending_world = 100"
    by (simp add: pending_world_eq)
  from th passive_observers len obtain w1 where d: "disconnect 3 observers pending_world = Some w1"
    by blast
  note a = th[THEN conjunct1, rule_format, OF d]
  have l1: "listeners w1 = [Some 7]" using d
    by (auto simp: disconnect_def update_passive passive_observers pending_world_eq
        clearTimeout_def truthy_def)
  have i1: "idle w1" using a by (simp add: idle_def)
  have "\<exists>w2. execs observers ?cs w1 = Some w2"
    using l1 i1
    by (simp add: advance_no_timer idle_def setMute_def updateMe_def update_passive
        passive_observers Let_def)
  then obtain w2 where e: "execs observers ?cs w1 = Some w2" by blast
  have "(\<forall>c \<in> set ?cs. \<not> is_connect (snd c)) \<and> execs observers ?cs w1 = Some w2"
    using e by simp
  note b = a[THEN conjunct2, THEN conjunct2, rule_format, OF this]
  have part1: "\<exists>w1. disconnect 3 observers pending_world = Some w1
        \<and> connState (getState w1) = Disconnected \<and> timers w1 = []
        \<and> (\<exists>w2. execs observers ?cs w1 = Some w2 \<and> connState (getState w2) = Disconnected)"
    using d a e b by blast
  from connect_passive[OF passive_observers len, of ?p] obtain v1 where
    c: "connect 3 observers ?p pending_world = Some v1" by blast
  from cg c have "connState (state pending_world) = Connecting
      \<and> connect 3 observers ?p pending_world = Some v1" by simp
  note k = th[THEN conjunct2, THEN conjunct2, rule_format, OF this]
  have nv: "now v1 = 100" "nextHandle pending_world = 2"
    using connect_result(5)[OF timers_ok_pending_world _ c] cg by (simp_all add: pending_world_eq)
  have t1: "timers v1 = [(2, 500)]" using k nv by simp
  have "advance 3 observers 399 v1 = Some (v1\<lparr>now := now v1 + 399\<rparr>)"
    by (rule advance_early[OF t1]) (simp add: nv)
  then obtain v2 where adv: "advance 3 observers 399 v1 = Some v2" by blast
  then have "(399::nat) < 400 \<and> advance 3 observers 399 v1 = Some v2" by simp
  note k2 = k[THEN conjunct2, THEN conjunct2, THEN conjunct2, THEN conjunct1, rule_format, OF this]
  have "connState (getState v2) = Connecting \<and> currentServer (getState v2) = Some ''t''"
    using k2 by simp
  with c t1 adv have part2: "\<exists>w1. connect 3 observers ?p pending_world = Some w1
        \<and> timers w1 = [(2, 500)]
        \<and> (\<exists>w2. advance 3 observers 399 w1 = Some w2
              \<and> connState (getState w2) = Connecting \<and> currentServer (getState w2) = Some ''t'')"
    by blast
  from timers_ok_pending_world basics cg part1 part2 show ?thesis by blast
qed

subsection \<open>One step of a run\<close>

lemma mirrors_fields [simp]:
  "mirrors (s\<lparr>currentChannelId := x\<rparr>) = mirrors s"
  "mirrors (s\<lparr>connState := y\<rparr>) = mirrors s"
  "mirrors (s\<lparr>currentServer := z\<rparr>) = mirrors s"
  "mirrors_exactly (s\<lparr>currentChannelId := x\<rparr>) = mirrors_exactly s"
  "mirrors_exactly (s\<lparr>connState := y\<rparr>) = mirrors_exactly s"
  "mirrors_exactly (s\<lparr>currentServer := z\<rparr>) = mirrors_exactly s"
  by (simp_all add: mirrors_def mirrors_exactly_def)

lemma mirrors_join:
  "mirrors s \<Longrightarrow>
   mirrors (s\<lparr>users := map (\<lambda>user. if id_u user = 1 then user\<lparr>channelId := c\<rparr> else user) (users s)\<rparr>)"
  "mirrors_exactly s \<Longrightarrow>
   mirrors_exactly (s\<lparr>users := map (\<lambda>user. if id_u user = 1 then user\<lparr>channelId := c\<rparr> else user) (users s)\<rparr>)"
  by (auto simp: mirrors_def mirrors_exactly_def)

lemma mirrors_updateMe:
  "mirrors_exactly (s\<lparr>me := m, users := map (\<lambda>user. if id_u user = 1
        then user\<lparr>muted_u := Some (muted m), deafened_u := Some (deafened m)\<rparr> else user) (users s)\<rparr>)"
  "mirrors (s\<lparr>me := m, users := map (\<lambda>user. if id_u user = 1
        then user\<lparr>muted_u := Some (muted m), deafened_u := Some (deafened m)\<rparr> else user) (users s)\<rparr>)"
  by (auto simp: mirrors_def mirrors_exactly_def flag_def)

lemma mirrors_exactly_mirrors: "mirrors_exactly s \<Longrightarrow> mirrors s"
  by (auto simp: mirrors_def mirrors_exactly_def flag_def)

lemma has_self_join:
  "has_self s \<Longrightarrow>
   has_self (s\<lparr>users := map (\<lambda>user. if id_u user = 1 then user\<lparr>channelId := c\<rparr> else user) (users s)\<rparr>)"
  by (rule has_self_map) auto

lemma has_self_updateMe:
  "has_self s \<Longrightarrow>
   has_self (s\<lparr>users := map (\<lambda>user. if id_u user = 1
        then user\<lparr>muted_u := a, deafened_u := b\<rparr> else user) (users s)\<rparr>)"
  by (rule has_self_map) auto

lemma updateMe_result:
  assumes "updateMe n cbs f w = Some w'"
  shows "state w' = (state w)\<lparr>me := f (me (state w)),
            users := map (\<lambda>user. if id_u user = 1
              then user\<lparr>muted_u := Some (muted (f (me (state w)))),
                        deafened_u := Some (deafened (f (me (state w))))\<rparr> else user) (users (state w))\<rparr>"
    "connectTimer w' = connectTimer w" "timers w' = timers w"
    "now w' = now w" "nextHandle w' = nextHandle w"
    "log w' = log w @ emitted w w'" "\<forall>e \<in> set (emitted w w'). snd (snd e) = state w'"
proof -
  let ?us = "map (\<lambda>user. if id_u user = 1
              then user\<lparr>muted_u := Some (muted (f (me (state w)))),
                        deafened_u := Some (deafened (f (me (state w))))\<rparr> else user) (users (state w))"
  from assms have u: "update n cbs (\<lambda>s. s\<lparr>me := f (me (state w)), users := ?us\<rparr>) w = Some w'"
    by (simp add: updateMe_def Let_def)
  note r = update_result[OF u]
  show "state w' = (state w)\<lparr>me := f (me (state w)), users := ?us\<rparr>" by (rule r(1))
  show "connectTimer w' = connectTimer w" "timers w' = timers w"
    "now w' = now w" "nextHandle w' = nextHandle w"
    "log w' = log w @ emitted w w'" by (rule r)+
  show "\<forall>e \<in> set (emitted w w'). snd (snd e) = state w'" using r(1,7) by simp
qed

lemma joinChannel_result:
  assumes "joinChannel n cbs c w = Some w'"
  shows "state w' = (state w)\<lparr>currentChannelId := Some c,
            users := map (\<lambda>user. if id_u user = 1 then user\<lparr>channelId := c\<rparr> else user) (users (state w))\<rparr>"
    "connectTimer w' = connectTimer w" "timers w' = timers w"
    "now w' = now w" "nextHandle w' = nextHandle w"
    "log w' = log w @ emitted w w'" "\<forall>e \<in> set (emitted w w'). snd (snd e) = state w'"
proof -
  let ?us = "map (\<lambda>user. if id_u user = 1 then user\<lparr>channelId := c\<rparr> else user) (users (state w))"
  from assms have u: "update n cbs (\<lambda>s. s\<lparr>currentChannelId := Some c, users := ?us\<rparr>) w = Some w'"
    by (simp add: joinChannel_def Let_def)
  note r = update_result[OF u]
  show "state w' = (state w)\<lparr>currentChannelId := Some c, users := ?us\<rparr>" by (rule r(1))
  show "connectTimer w' = connectTimer w" "timers w' = timers w"
    "now w' = now w" "nextHandle w' = nextHandle w"
    "log w' = log w @ emitted w w'" by (rule r)+
  show "\<forall>e \<in> set (emitted w w'). snd (snd e) = state w'" using r(1,7) by simp
qed

lemma state_ok_fields [simp]:
  "state_ok (s\<lparr>connState := y\<rparr>) = state_ok s"
  "state_ok (s\<lparr>currentServer := z\<rparr>) = state_ok s"
  by (simp_all add: state_ok_def)

lemma state_ok_cong: "users s' = users s \<Longrightarrow> me s' = me s \<Longrightarrow> state_ok s' = state_ok s"
  by (simp add: state_ok_def has_self_def mirrors_def)

lemma state_ok_join:
  assumes "state_ok s"
  shows "state_ok (s\<lparr>currentChannelId := Some c,
     users := map (\<lambda>user. if id_u user = 1 then user\<lparr>channelId := c\<rparr> else user) (users s)\<rparr>)"
proof -
  let ?s1 = "s\<lparr>users := map (\<lambda>user. if id_u user = 1 then user\<lparr>channelId := c\<rparr> else user) (users s)\<rparr>"
  have "state_ok ?s1" using assms has_self_join[of s c] mirrors_join(1)[of s c]
    by (simp add: state_ok_def)
  then show ?thesis by (subst state_ok_cong[where s = ?s1]) simp_all
qed

lemma state_ok_updateMe:
  assumes "state_ok s"
  shows "state_ok (s\<lparr>me := m, users := map (\<lambda>user. if id_u user = 1
        then user\<lparr>muted_u := Some (muted m), deafened_u := Some (deafened m)\<rparr> else user) (users s)\<rparr>)"
proof -
  let ?us = "map (\<lambda>user. if id_u user = 1
        then user\<lparr>muted_u := Some (muted m), deafened_u := Some (deafened m)\<rparr> else user) (users s)"
  have "has_self (s\<lparr>users := ?us\<rparr>)" using assms by (intro has_self_updateMe) (simp add: state_ok_def)
  then have "has_self (s\<lparr>me := m, users := ?us\<rparr>)" by (simp add: has_self_def)
  then show ?thesis using mirrors_updateMe(2)[where s = s and m = m] by (simp add: state_ok_def)
qed

lemma timers_ok_now: "timers_ok w \<Longrightarrow> timers_ok (w\<lparr>now := now w + dt\<rparr>)"
  by (auto simp: timers_ok_def)

lemma timers_ok_core:
  assumes "timers_ok w" "timers w' = timers w" "connectTimer w' = connectTimer w"
    "now w' = now w" "nextHandle w' = nextHandle w" "connState (state w') = connState (state w)"
  shows "timers_ok w'"
  using assms by (simp add: timers_ok_def)

lemma exec_step:
  assumes ok: "timers_ok w" and e: "exec n cbs c w = Some w'"
  shows "timers_ok w' \<and> log w' = log w @ emitted w w'
         \<and> (\<forall>e \<in> set (emitted w w'). snd (snd e) = state w')
         \<and> (state_ok (state w) \<longrightarrow> state_ok (state w'))"
proof (cases c)
  case (CSubscribe l)
  with e have s: "subscribe n cbs l w = Some w'" by simp
  from delivers_aux(3)[OF s] have sc: "same_core w w'" by (simp add: delivers_def)
  with ok have "timers_ok w'" by (simp add: timers_ok_same_core)
  with subscribe_result[OF s] show ?thesis by simp
next
  case (CUnsubscribe l)
  with e have w': "w' = unsubscribe l w" by simp
  have "timers_ok w'" using ok by (simp add: w' unsubscribe_def timers_ok_def)
  then show ?thesis by (simp add: w' unsubscribe_def emitted_def)
next
  case CGetState
  with e ok show ?thesis by simp
next
  case (CConnect p)
  with e have c: "connect n cbs p w = Some w'" by simp
  show ?thesis
  proof (cases "connState (state w) = Connected")
    case True
    with c have "w' = w" by (simp add: connect_def)
    with ok show ?thesis by simp
  next
    case False
    note r = connect_result[OF ok False c]
    have "timers_ok w'" using ok r by (simp add: timers_ok_def)
    with r show ?thesis by simp
  qed
next
  case CDisconnect
  with e have d: "disconnect n cbs w = Some w'" by simp
  note r = disconnect_result[OF ok d]
  have "timers_ok w'" using ok r by (simp add: timers_ok_def)
  with r show ?thesis by simp
next
  case (CJoinChannel x)
  with e have j: "joinChannel n cbs x w = Some w'" by simp
  note r = joinChannel_result[OF j]
  have "timers_ok w'" by (rule timers_ok_core[OF ok r(3,2,4,5)]) (simp add: r(1))
  moreover have "state_ok (state w')" if "state_ok (state w)"
    using state_ok_join[OF that, of x] r(1) by simp
  ultimately show ?thesis using r(6,7) by blast
next
  case (CSetMute b)
  with e have j: "updateMe n cbs (\<lambda>m. m\<lparr>muted := b\<rparr>) w = Some w'" by (simp add: setMute_def)
  note r = updateMe_result[OF j]
  have "timers_ok w'" by (rule timers_ok_core[OF ok r(3,2,4,5)]) (simp add: r(1))
  moreover have "state_ok (state w')" if "state_ok (state w)"
    using state_ok_updateMe[OF that] r(1) by simp
  ultimately show ?thesis using r(6,7) by blast
next
  case (CSetDeafen b)
  with e have j: "updateMe n cbs (\<lambda>m. m\<lparr>deafened := b\<rparr>) w = Some w'" by (simp add: setDeafen_def)
  note r = updateMe_result[OF j]
  have "timers_ok w'" by (rule timers_ok_core[OF ok r(3,2,4,5)]) (simp add: r(1))
  moreover have "state_ok (state w')" if "state_ok (state w)"
    using state_ok_updateMe[OF that] r(1) by simp
  ultimately show ?thesis using r(6,7) by blast
next
  case (CAdvance dt)
  with e have a: "advance n cbs dt w = Some w'" by simp
  from ok show ?thesis
  proof (rule timers_ok_cases)
    assume "timers w = []"
    with a have "w' = w\<lparr>now := now w + dt\<rparr>" by (simp add: advance_no_timer)
    with timers_ok_now[OF ok, of dt] show ?thesis by simp
  next
    fix h d
    assume t: "timers w = [(h, d)]"
    show ?thesis
    proof (cases "d \<le> now w + dt")
      case False
      with a t have "w' = w\<lparr>now := now w + dt\<rparr>" by (simp add: advance_early)
      with timers_ok_now[OF ok, of dt] show ?thesis by simp
    next
      case True
      note r = advance_fire_result[OF t True a]
      have "timers_ok w'" using ok r by (simp add: timers_ok_def)
      with r show ?thesis by simp
    qed
  qed
qed

lemma execs_invariant:
  "timers_ok w \<Longrightarrow> state_ok (state w) \<Longrightarrow> \<forall>e \<in> set (log w). state_ok (snd (snd e)) \<Longrightarrow>
   execs cbs cs w = Some w' \<Longrightarrow>
   timers_ok w' \<and> state_ok (state w') \<and> (\<forall>e \<in> set (log w'). state_ok (snd (snd e)))"
proof (induction cs arbitrary: w)
  case Nil
  then show ?case by simp
next
  case (Cons c cs)
  from Cons.prems(4) obtain w1 where e1: "exec (fst c) cbs (snd c) w = Some w1"
    and e2: "execs cbs cs w1 = Some w'" by (auto split: option.splits)
  note s = exec_step[OF Cons.prems(1) e1]
  from s Cons.prems(2) have ok1: "state_ok (state w1)" by blast
  have "\<forall>e \<in> set (log w1). state_ok (snd (snd e))"
  proof
    fix e assume "e \<in> set (log w1)"
    with s have "e \<in> set (log w) \<or> e \<in> set (emitted w w1)" by (metis Un_iff set_append)
    then show "state_ok (snd (snd e))" using Cons.prems(3) s ok1 by auto
  qed
  with Cons.IH[OF _ ok1 _ e2] s show ?case by blast
qed

lemma state_ok_initial: "state_ok initialState"
  by (simp add: state_ok_def has_self_def mirrors_def initialState_def defaultUsers_def flag_def)

lemma reachable_invariant:
  assumes "execs cbs cs createMockTransport = Some w"
  shows "timers_ok w" "state_ok (state w)" "\<forall>e \<in> set (log w). state_ok (snd (snd e))"
proof -
  have "state_ok (state createMockTransport)"
    "\<forall>e \<in> set (log createMockTransport). state_ok (snd (snd e))"
    using state_ok_initial by (simp_all add: createMockTransport_def)
  from execs_invariant[OF timers_ok_initial this assms]
  show "timers_ok w" "state_ok (state w)" "\<forall>e \<in> set (log w). state_ok (snd (snd e))"
    by blast+
qed

lemma muted_world_run:
  "execs observers
     [(Suc 0, CSubscribe 7), (Suc (Suc 0), CJoinChannel 2),
      (Suc (Suc 0), CSetMute True), (Suc (Suc 0), CSubscribe 8)] createMockTransport
   = Some muted_world"
  by (simp add: muted_world_def observers_def createMockTransport_def joinChannel_def
      setMute_def updateMe_def update_def set_add_def Let_def)

lemma muted_world_log: "length (log muted_world) = 4"
  by (simp add: muted_world_def observers_def createMockTransport_def joinChannel_def
      setMute_def updateMe_def update_def set_add_def Let_def)

section \<open>The self user mirrors the self state\<close>

text \<open>
  C5, as the code has it. In every snapshot delivered to a listener in a run of the
  mock, the one delivered at subscription included, there is a user with id 1, and the
  muted and deafened flags of every such user, read as booleans with an absent flag
  counting as false, equal \<open>me.muted\<close> and \<open>me.deafened\<close>. In the snapshots that
  \<^verbatim>\<open>setMute\<close> and \<^verbatim>\<open>setDeafen\<close> deliver, both flags are present and equal to those of
  \<open>me\<close>.
\<close>

theorem self_user_mirror:
  "execs cbs cs createMockTransport = Some w \<Longrightarrow>
   (\<forall>e \<in> set (log w). has_self (snd (snd e)) \<and> mirrors (snd (snd e)))
   \<and> (\<forall>n b w'. setMute n cbs b w = Some w' \<or> setDeafen n cbs b w = Some w' \<longrightarrow>
         (\<forall>e \<in> set (emitted w w'). has_self (snd (snd e)) \<and> mirrors_exactly (snd (snd e))))"
proof (intro conjI allI impI)
  assume r: "execs cbs cs createMockTransport = Some w"
  from reachable_invariant(3)[OF r]
  show "\<forall>e \<in> set (log w). has_self (snd (snd e)) \<and> mirrors (snd (snd e))"
    by (simp add: state_ok_def)
  fix n b w'
  assume "setMute n cbs b w = Some w' \<or> setDeafen n cbs b w = Some w'"
  then obtain f where u: "updateMe n cbs f w = Some w'"
    by (auto simp: setMute_def setDeafen_def)
  note x = updateMe_result[OF u]
  from reachable_invariant(2)[OF r] have "state_ok (state w')"
    unfolding x(1) by (rule state_ok_updateMe)
  moreover have "mirrors_exactly (state w')"
    unfolding x(1) by (rule mirrors_updateMe(1))
  ultimately show "\<forall>e \<in> set (emitted w w'). has_self (snd (snd e)) \<and> mirrors_exactly (snd (snd e))"
    using x(7) by (simp add: state_ok_def)
qed

theorem self_user_mirror_witness:
  "execs observers
     [(Suc 0, CSubscribe 7), (Suc (Suc 0), CJoinChannel 2),
      (Suc (Suc 0), CSetMute True), (Suc (Suc 0), CSubscribe 8)] createMockTransport
   = Some muted_world
   \<and> length (log muted_world) = 4
   \<and> list_all (\<lambda>e. has_self (snd (snd e)) \<and> mirrors (snd (snd e))) (log muted_world)"
  using self_user_mirror[OF muted_world_run] muted_world_run muted_world_log
  by (simp add: list_all_iff)

text \<open>
  The claim as written fails: the snapshot delivered at subscription to a fresh
  transport has a self user whose muted flag is absent, while \<open>me.muted\<close> is \<open>false\<close>.
\<close>

theorem self_user_mirror_counterexample:
  "exec (Suc 0) observers (CSubscribe 7) createMockTransport
     = Some (createMockTransport\<lparr>listeners := [Some 7], log := [(7, OnSubscribe, initialState)]\<rparr>)
   \<and> id_u (hd (users initialState)) = 1
   \<and> muted_u (hd (users initialState)) = None
   \<and> muted_u (hd (users initialState)) \<noteq> Some (muted (me initialState))
   \<and> \<not> mirrors_exactly initialState"
  by (simp add: observers_def createMockTransport_def set_add_def Let_def initialState_def
      defaultUsers_def mirrors_exactly_def)

subsection \<open>A listener that is not called\<close>

lemma uncalled_refl [simp]: "uncalled l w w" by (simp add: uncalled_def)

lemma uncalled_trans: "uncalled l a b \<Longrightarrow> uncalled l b c \<Longrightarrow> uncalled l a c"
  by (auto simp: uncalled_def)

lemma uncalled_left [simp]:
  "uncalled l (w\<lparr>store := x\<rparr>) w' = uncalled l w w'"
  "uncalled l (w\<lparr>state := s\<rparr>) w' = uncalled l w w'"
  "uncalled l (w\<lparr>timers := t\<rparr>) w' = uncalled l w w'"
  "uncalled l (w\<lparr>now := t'\<rparr>) w' = uncalled l w w'"
  by (simp_all add: uncalled_def)

lemma uncalled_right [simp]:
  "uncalled l w (w'\<lparr>timers := t\<rparr>) = uncalled l w w'"
  "uncalled l w (w'\<lparr>now := t'\<rparr>) = uncalled l w w'"
  "uncalled l w (w'\<lparr>connectTimer := h\<rparr>) = uncalled l w w'"
  "uncalled l w (w'\<lparr>nextHandle := k\<rparr>) = uncalled l w w'"
  "uncalled l w (w'\<lparr>store := x\<rparr>) = uncalled l w w'"
  by (simp_all add: uncalled_def)

lemma uncalled_clearTimeout [simp]:
  "uncalled l (clearTimeout h w) w' = uncalled l w w'"
  "uncalled l w (clearTimeout h w') = uncalled l w w'"
  by (simp_all add: clearTimeout_def)

lemma uncalled_log:
  "uncalled l (w\<lparr>log := log w @ [(k, org, snap)]\<rparr>) w' \<Longrightarrow> k \<noteq> l \<Longrightarrow> uncalled l w w'"
  by (auto simp: uncalled_def)

lemma uncalled_add:
  "uncalled l (w\<lparr>listeners := set_add k (listeners w)\<rparr>) w' \<Longrightarrow> k \<noteq> l \<Longrightarrow> uncalled l w w'"
  by (auto simp: uncalled_def set_add_def split: if_splits)

lemma uncalled_unsubscribe:
  "uncalled l (unsubscribe k w) w' \<Longrightarrow> uncalled l w w'"
  by (auto simp: uncalled_def unsubscribe_def set_delete_def)

lemma uncalled_aux:
  "invoke n cbs k org snap w = Some w' \<Longrightarrow> never_subscribed cbs l \<Longrightarrow> k \<noteq> l \<Longrightarrow> uncalled l w w'"
  "run_actions n cbs snap as w = Some w' \<Longrightarrow> never_subscribed cbs l \<Longrightarrow> Subscribe l \<notin> set as \<Longrightarrow>
     uncalled l w w'"
  "subscribe n cbs k w = Some w' \<Longrightarrow> never_subscribed cbs l \<Longrightarrow> k \<noteq> l \<Longrightarrow> uncalled l w w'"
proof (induction n cbs k org snap w and n cbs snap as w and n cbs k w
    arbitrary: w' and w' and w' rule: invoke_run_actions_subscribe.induct)
  case (1 cbs l org snap w)
  then show ?case by simp
next
  case (2 n cbs k org snap w)
  from 2(3) have "Subscribe l \<notin> set (cbs k)" by (simp add: never_subscribed_def)
  with 2 have "uncalled l (w\<lparr>log := log w @ [(k, org, snap)]\<rparr>) w'" by simp
  then show ?case using 2(4) by (rule uncalled_log)
next
  case (3 n cbs snap w)
  then show ?case by simp
next
  case (4 n cbs snap k as w)
  from 4(3) obtain w1 where s: "subscribe n cbs k w = Some w1"
    and r: "run_actions n cbs snap as w1 = Some w'" by (auto split: option.splits)
  from 4(5) have kl: "k \<noteq> l" and as: "Subscribe l \<notin> set as" by auto
  from 4(1)[OF s 4(4) kl] 4(2)[OF s r 4(4) as] show ?case by (rule uncalled_trans)
next
  case (5 n cbs snap k as w)
  then have "uncalled l (unsubscribe k w) w'" by simp
  then show ?case by (rule uncalled_unsubscribe)
next
  case (6 n cbs snap as w)
  then show ?case by simp
next
  case (7 n cbs k w)
  then have "uncalled l (w\<lparr>listeners := set_add k (listeners w)\<rparr>) w'" by (simp add: Let_def)
  then show ?case using 7(4) by (rule uncalled_add)
qed

lemma uncalled_absent: "uncalled l w w' \<Longrightarrow> Some l \<notin> set (listeners w) \<Longrightarrow> Some l \<notin> set (listeners w')"
  by (simp add: uncalled_def)

lemma forEach_uncalled:
  "forEach n cbs i snap w = Some w' \<Longrightarrow> never_subscribed cbs l \<Longrightarrow>
   Some l \<notin> set (listeners w) \<Longrightarrow> uncalled l w w'"
proof (induction n cbs i snap w arbitrary: w' rule: forEach.induct)
  case (1 cbs i snap w)
  then show ?case by simp
next
  case (2 n cbs i snap w)
  show ?case
  proof (cases "i < length (listeners w)")
    case False
    with 2 show ?thesis by simp
  next
    case True
    show ?thesis
    proof (cases "listeners w ! i")
      case None
      with 2 True show ?thesis by simp
    next
      case (Some k)
      with 2(3) True obtain w1 where
        w1: "invoke n cbs k OnUpdate snap w = Some w1" and
        rest: "forEach n cbs (Suc i) snap w1 = Some w'"
        by (auto split: option.splits)
      from Some True have "Some k \<in> set (listeners w)" by (metis nth_mem)
      with 2(5) have kl: "k \<noteq> l" by auto
      from w1 2(4) kl have u1: "uncalled l w w1" by (rule uncalled_aux(1))
      from 2(2)[OF True Some w1 rest 2(4) uncalled_absent[OF u1 2(5)]]
      have "uncalled l w1 w'" .
      with u1 show ?thesis by (rule uncalled_trans)
    qed
  qed
qed

lemma update_uncalled:
  "update n cbs partial w = Some w' \<Longrightarrow> never_subscribed cbs l \<Longrightarrow>
   Some l \<notin> set (listeners w) \<Longrightarrow> uncalled l w w'"
  using forEach_uncalled[of n cbs 0 "snapshot (partial (state w))" "w\<lparr>state := partial (state w)\<rparr>" w' l]
  by (simp add: update_def Let_def)

lemma fire_due_uncalled:
  "fire_due n cbs T ts w = Some w' \<Longrightarrow> never_subscribed cbs l \<Longrightarrow>
   Some l \<notin> set (listeners w) \<Longrightarrow> uncalled l w w'"
proof (induction ts arbitrary: w)
  case Nil
  then show ?case by simp
next
  case (Cons t ts)
  show ?case
  proof (cases "snd t \<le> T \<and> t \<in> set (timers w)")
    case False
    with Cons show ?thesis by auto
  next
    case True
    let ?w0 = "w\<lparr>timers := removeAll t (timers w), now := max (now w) (snd t)\<rparr>"
    from Cons.prems(1) True obtain w1 where
      c: "update n cbs (\<lambda>s. s\<lparr>connState := Connected\<rparr>) ?w0 = Some w1"
      and r: "fire_due n cbs T ts w1 = Some w'"
      by (auto simp: connectCompletion_def split: option.splits)
    have "uncalled l ?w0 w1" by (rule update_uncalled[OF c Cons.prems(2)]) (simp add: Cons.prems(3))
    then have u1: "uncalled l w w1" by simp
    from Cons.IH[OF r Cons.prems(2) uncalled_absent[OF u1 Cons.prems(3)]] u1
    show ?thesis by (blast intro: uncalled_trans)
  qed
qed

lemma exec_uncalled:
  assumes e: "exec n cbs c w = Some w'" and ns: "never_subscribed cbs l"
    and c: "c \<noteq> CSubscribe l" and a: "Some l \<notin> set (listeners w)"
  shows "uncalled l w w'"
proof (cases c)
  case (CSubscribe k)
  with c e show ?thesis by (auto intro: uncalled_aux(3)[OF _ ns])
next
  case (CUnsubscribe k)
  with e have "uncalled l (unsubscribe k w) w'" by simp
  then show ?thesis by (rule uncalled_unsubscribe)
next
  case CGetState
  with e show ?thesis by simp
next
  case (CConnect p)
  with e show ?thesis
    by (auto simp: connect_def Let_def setTimeout_def clearTimeout_def
        split: if_splits option.splits prod.splits dest!: update_uncalled[OF _ ns a])
next
  case CDisconnect
  with e have "update n cbs (\<lambda>s. s\<lparr>connState := Disconnected\<rparr>)
      (if truthy (connectTimer w) then clearTimeout (the (connectTimer w)) w else w) = Some w'"
    by (simp add: disconnect_def Let_def)
  from update_uncalled[OF this ns] a show ?thesis
    by (cases "truthy (connectTimer w)") simp_all
next
  case (CJoinChannel x)
  with e show ?thesis by (auto simp: joinChannel_def Let_def intro: update_uncalled[OF _ ns a])
next
  case (CSetMute b)
  with e show ?thesis
    by (auto simp: setMute_def updateMe_def Let_def intro: update_uncalled[OF _ ns a])
next
  case (CSetDeafen b)
  with e show ?thesis
    by (auto simp: setDeafen_def updateMe_def Let_def intro: update_uncalled[OF _ ns a])
next
  case (CAdvance dt)
  with e show ?thesis
    by (auto simp: advance_def split: option.splits dest!: fire_due_uncalled[OF _ ns a])
qed

lemma execs_uncalled:
  "execs cbs cs w = Some w' \<Longrightarrow> never_subscribed cbs l \<Longrightarrow>
   \<forall>c \<in> set cs. snd c \<noteq> CSubscribe l \<Longrightarrow> Some l \<notin> set (listeners w) \<Longrightarrow> uncalled l w w'"
proof (induction cs arbitrary: w)
  case Nil
  then show ?case by simp
next
  case (Cons c cs)
  from Cons.prems(1) obtain w1 where e1: "exec (fst c) cbs (snd c) w = Some w1"
    and e2: "execs cbs cs w1 = Some w'" by (auto split: option.splits)
  from Cons.prems(3) have c: "snd c \<noteq> CSubscribe l" and cs: "\<forall>c \<in> set cs. snd c \<noteq> CSubscribe l"
    by simp_all
  note u1 = exec_uncalled[OF e1 Cons.prems(2) c Cons.prems(4)]
  from Cons.IH[OF e2 Cons.prems(2) cs uncalled_absent[OF u1 Cons.prems(4)]] u1
  show ?case by (blast intro: uncalled_trans)
qed

lemma calls_of_simps [simp]:
  "calls_of l [] = []"
  "calls_of l (e # es) = (if fst e = l then snd e # calls_of l es else calls_of l es)"
  "calls_of l (xs @ ys) = calls_of l xs @ calls_of l ys"
  by (simp_all add: calls_of_def)

lemma calls_of_none: "l \<notin> fst ` set es \<Longrightarrow> calls_of l es = []"
  by (induction es) auto

lemma uncalled_emitted: "uncalled l w w' \<Longrightarrow> calls_of l (emitted w w') = []"
  by (auto simp: uncalled_def emitted_def calls_of_none)

lemma set_delete_absent [simp]: "Some l \<notin> set (set_delete l es)"
  by (auto simp: set_delete_def)

lemma set_delete_idem [simp]: "set_delete l (set_delete l es) = set_delete l es"
  by (simp add: set_delete_def)

lemma set_delete_noop: "Some l \<notin> set es \<Longrightarrow> set_delete l es = es"
  by (induction es) (auto simp: set_delete_def)

lemma subscribe_calls:
  assumes s: "subscribe n cbs l w = Some w'" and ns: "never_subscribed cbs l"
  shows "calls_of l (emitted w w') = [(OnSubscribe, state w)]"
proof -
  let ?w1 = "w\<lparr>listeners := set_add l (listeners w)\<rparr>"
  from s obtain m where n: "n = Suc m" by (cases n) (auto simp: Let_def)
  let ?w2 = "?w1\<lparr>log := log ?w1 @ [(l, OnSubscribe, state w)]\<rparr>"
  from s n have r: "run_actions m cbs (state w) (cbs l) ?w2 = Some w'" by (simp add: Let_def)
  from ns have "Subscribe l \<notin> set (cbs l)" by (simp add: never_subscribed_def)
  from uncalled_aux(2)[OF r ns this] obtain es where
    "log w' = log ?w2 @ es" "l \<notin> fst ` set es" by (auto simp: uncalled_def)
  then have "emitted w w' = (l, OnSubscribe, state w) # es" "calls_of l es = []"
    by (simp_all add: emitted_def calls_of_none)
  then show ?thesis by simp
qed

section \<open>Subscribing and unsubscribing\<close>

text \<open>
  C6. Let \<open>l\<close> be a listener that no callback subscribes. Whenever \<^verbatim>\<open>subscribe(l)\<close>
  returns, \<open>l\<close> has been called exactly once during the call, with a snapshot equal to
  what \<^verbatim>\<open>getState()\<close> returned just before; it returns when \<open>l\<close> only observes. After the
  returned unsubscribe function has run, \<open>l\<close> is not in the set, and through any later
  commands and passing of time, short of subscribing \<open>l\<close> again, \<open>l\<close> is never called.
  Running the unsubscribe function again changes nothing.
\<close>

theorem subscribe_contract:
  assumes "never_subscribed cbs l"
  shows "(\<forall>w'. subscribe n cbs l w = Some w' \<longrightarrow>
            calls_of l (emitted w w') = [(OnSubscribe, getState w)])
         \<and> (cbs l = [] \<longrightarrow> (\<exists>w'. subscribe (Suc n) cbs l w = Some w'))
         \<and> Some l \<notin> set (listeners (unsubscribe l w))
         \<and> (\<forall>cs w2. (\<forall>c \<in> set cs. snd c \<noteq> CSubscribe l)
                \<and> execs cbs cs (unsubscribe l w) = Some w2 \<longrightarrow>
                calls_of l (emitted (unsubscribe l w) w2) = [])
         \<and> unsubscribe l (unsubscribe l w) = unsubscribe l w"
proof (intro conjI allI impI)
  fix w'
  assume "subscribe n cbs l w = Some w'"
  from subscribe_calls[OF this assms]
  show "calls_of l (emitted w w') = [(OnSubscribe, getState w)]" by simp
next
  assume "cbs l = []"
  then show "\<exists>w'. subscribe (Suc n) cbs l w = Some w'" by (simp add: Let_def)
next
  show a: "Some l \<notin> set (listeners (unsubscribe l w))" by (simp add: unsubscribe_def)
  show "unsubscribe l (unsubscribe l w) = unsubscribe l w" by (simp add: unsubscribe_def)
  fix cs w2
  assume "(\<forall>c \<in> set cs. snd c \<noteq> CSubscribe l) \<and> execs cbs cs (unsubscribe l w) = Some w2"
  then have "uncalled l (unsubscribe l w) w2"
    using execs_uncalled[OF _ assms _ a] by blast
  then show "calls_of l (emitted (unsubscribe l w) w2) = []" by (rule uncalled_emitted)
qed

lemma never_subscribed_observers: "never_subscribed observers l"
  by (simp add: never_subscribed_def observers_def)

theorem subscribe_contract_witness:
  "never_subscribed observers 7
   \<and> (\<exists>w'. subscribe (Suc 0) observers 7 createMockTransport = Some w'
         \<and> calls_of 7 (emitted createMockTransport w') = [(OnSubscribe, getState createMockTransport)])
   \<and> (\<exists>w2. execs observers [(3, CSetMute True), (3, CJoinChannel 2)] (unsubscribe 7 two_observers)
             = Some w2
         \<and> calls_of 7 (emitted (unsubscribe 7 two_observers) w2) = []
         \<and> length (calls_of 8 (emitted (unsubscribe 7 two_observers) w2)) = 2)"
proof -
  let ?cs = "[(3, CSetMute True), (3, CJoinChannel 2)]"
  note th = subscribe_contract[OF never_subscribed_observers, where l = 7 and n = 0]
  from th[where w = createMockTransport] have
    "\<exists>w'. subscribe (Suc 0) observers 7 createMockTransport = Some w'"
    by (simp add: observers_def)
  then obtain w' where s: "subscribe (Suc 0) observers 7 createMockTransport = Some w'" by blast
  have "\<forall>w'. subscribe (Suc 0) observers 7 createMockTransport = Some w' \<longrightarrow>
            calls_of 7 (emitted createMockTransport w') = [(OnSubscribe, getState createMockTransport)]"
    using subscribe_contract[OF never_subscribed_observers, where l = 7 and n = "Suc 0"
        and w = createMockTransport]
    by blast
  with s have p1: "\<exists>w'. subscribe (Suc 0) observers 7 createMockTransport = Some w'
         \<and> calls_of 7 (emitted createMockTransport w') = [(OnSubscribe, getState createMockTransport)]"
    by blast
  have u: "unsubscribe 7 two_observers = createMockTransport\<lparr>listeners := [None, Some 8],
      log := [(7, OnSubscribe, initialState), (8, OnSubscribe, initialState)]\<rparr>"
    by (simp add: two_observers_eq unsubscribe_def set_delete_def createMockTransport_def)
  have "\<exists>w2. execs observers ?cs (unsubscribe 7 two_observers) = Some w2
      \<and> length (calls_of 8 (emitted (unsubscribe 7 two_observers) w2)) = 2"
    unfolding u
    by (simp add: setMute_def updateMe_def joinChannel_def update_passive passive_observers
        createMockTransport_def Let_def emitted_def)
  then obtain w2 where e: "execs observers ?cs (unsubscribe 7 two_observers) = Some w2"
    and k: "length (calls_of 8 (emitted (unsubscribe 7 two_observers) w2)) = 2" by blast
  have "(\<forall>c \<in> set ?cs. snd c \<noteq> CSubscribe 7) \<and> execs observers ?cs (unsubscribe 7 two_observers) = Some w2"
    using e by simp
  with th[where w = two_observers] have "calls_of 7 (emitted (unsubscribe 7 two_observers) w2) = []"
    by blast
  with e k p1 never_subscribed_observers show ?thesis by blast
qed

subsection \<open>The store's listener is reached\<close>

lemma entry_kept_refl [simp]: "entry_kept L w w" by (simp add: entry_kept_def)
lemma entry_kept_trans: "entry_kept L a b \<Longrightarrow> entry_kept L b c \<Longrightarrow> entry_kept L a c"
  by (simp add: entry_kept_def)
lemma entry_kept_left [simp]:
  "entry_kept L (w\<lparr>store := x\<rparr>) w' = entry_kept L w w'"
  "entry_kept L (w\<lparr>log := y\<rparr>) w' = entry_kept L w w'"
  "entry_kept L (w\<lparr>state := s\<rparr>) w' = entry_kept L w w'"
  by (simp_all add: entry_kept_def)

lemma entry_kept_add:
  "entry_kept L (w\<lparr>listeners := set_add k (listeners w)\<rparr>) w' \<Longrightarrow> entry_kept L w w'"
  by (auto simp: entry_kept_def set_add_def nth_append split: if_splits)

lemma entry_kept_unsubscribe:
  "entry_kept L (unsubscribe k w) w' \<Longrightarrow> k \<noteq> L \<Longrightarrow> entry_kept L w w'"
  by (auto simp: entry_kept_def unsubscribe_def set_delete_def)

lemma entry_kept_aux:
  "invoke n cbs k org snap w = Some w' \<Longrightarrow> never_unsubscribed cbs L \<Longrightarrow> entry_kept L w w'"
  "run_actions n cbs snap as w = Some w' \<Longrightarrow> never_unsubscribed cbs L \<Longrightarrow>
     Unsubscribe L \<notin> set as \<Longrightarrow> entry_kept L w w'"
  "subscribe n cbs k w = Some w' \<Longrightarrow> never_unsubscribed cbs L \<Longrightarrow> entry_kept L w w'"
proof (induction n cbs k org snap w and n cbs snap as w and n cbs k w
    arbitrary: w' and w' and w' rule: invoke_run_actions_subscribe.induct)
  case (1 cbs l org snap w)
  then show ?case by simp
next
  case (2 n cbs k org snap w)
  from 2(3) have "Unsubscribe L \<notin> set (cbs k)" by (simp add: never_unsubscribed_def)
  with 2 show ?case by simp
next
  case (3 n cbs snap w)
  then show ?case by simp
next
  case (4 n cbs snap k as w)
  from 4(3) obtain w1 where s: "subscribe n cbs k w = Some w1"
    and r: "run_actions n cbs snap as w1 = Some w'" by (auto split: option.splits)
  from 4(5) have as: "Unsubscribe L \<notin> set as" by auto
  from 4(1)[OF s 4(4)] 4(2)[OF s r 4(4) as] show ?case by (rule entry_kept_trans)
next
  case (5 n cbs snap k as w)
  then have "entry_kept L (unsubscribe k w) w'" "k \<noteq> L" by auto
  then show ?case by (rule entry_kept_unsubscribe)
next
  case (6 n cbs snap as w)
  then show ?case by simp
next
  case (7 n cbs k w)
  then have "entry_kept L (w\<lparr>listeners := set_add k (listeners w)\<rparr>) w'" by (simp add: Let_def)
  then show ?case by (rule entry_kept_add)
qed

lemma store_kept_refl [simp]: "store_kept w w" by (simp add: store_kept_def)
lemma store_kept_trans: "store_kept a b \<Longrightarrow> store_kept b c \<Longrightarrow> store_kept a c"
  by (auto simp: store_kept_def)
lemma store_kept_left [simp]:
  "store_kept (w\<lparr>listeners := x\<rparr>) w' = store_kept w w'"
  "store_kept (w\<lparr>log := y\<rparr>) w' = store_kept w w'"
  "store_kept (unsubscribe k w) w' = store_kept w w'"
  by (simp_all add: store_kept_def unsubscribe_def)
lemma store_kept_set:
  "store_kept (w\<lparr>store := Some (state w)\<rparr>) w' \<Longrightarrow> store_kept w w'"
  by (auto simp: store_kept_def)
lemma store_kept_state: "store_kept w w' \<Longrightarrow> state w' = state w"
  by (simp add: store_kept_def)

lemma store_kept_aux:
  "invoke n cbs k org snap w = Some w' \<Longrightarrow> snap = state w \<Longrightarrow> store_kept w w'"
  "run_actions n cbs snap as w = Some w' \<Longrightarrow> snap = state w \<Longrightarrow> store_kept w w'"
  "subscribe n cbs k w = Some w' \<Longrightarrow> store_kept w w'"
proof (induction n cbs k org snap w and n cbs snap as w and n cbs k w
    arbitrary: w' and w' and w' rule: invoke_run_actions_subscribe.induct)
  case (1 cbs l org snap w)
  then show ?case by simp
next
  case (2 n cbs k org snap w)
  then show ?case by simp
next
  case (3 n cbs snap w)
  then show ?case by simp
next
  case (4 n cbs snap k as w)
  from 4(3) obtain w1 where s: "subscribe n cbs k w = Some w1"
    and r: "run_actions n cbs snap as w1 = Some w'" by (auto split: option.splits)
  note k1 = 4(1)[OF s]
  from k1 4(4) have "snap = state w1" by (simp add: store_kept_def)
  from k1 4(2)[OF s r this] show ?case by (rule store_kept_trans)
next
  case (5 n cbs snap k as w)
  then have "store_kept (unsubscribe k w) w'" by (simp add: unsubscribe_def)
  then show ?case by simp
next
  case (6 n cbs snap as w)
  then have "store_kept (w\<lparr>store := Some (state w)\<rparr>) w'" by simp
  then show ?case by (rule store_kept_set)
next
  case (7 n cbs k w)
  then show ?case by (simp add: Let_def)
qed

lemma run_actions_sets_store:
  "run_actions n cbs snap as w = Some w' \<Longrightarrow> snap = state w \<Longrightarrow> SetStore \<in> set as \<Longrightarrow>
   store w' = Some snap"
proof (induction as arbitrary: w)
  case Nil
  then show ?case by simp
next
  case (Cons a as)
  show ?case
  proof (cases a)
    case (Subscribe k)
    with Cons.prems(1) obtain w1 where s: "subscribe n cbs k w = Some w1"
      and r: "run_actions n cbs snap as w1 = Some w'" by (auto split: option.splits)
    from store_kept_aux(3)[OF s] Cons.prems(2) have "snap = state w1" by (simp add: store_kept_def)
    from Cons.IH[OF r this] Cons.prems(3) Subscribe show ?thesis by simp
  next
    case (Unsubscribe k)
    with Cons.prems have r: "run_actions n cbs snap as (unsubscribe k w) = Some w'"
      and "snap = state (unsubscribe k w)" "SetStore \<in> set as"
      by (simp_all add: unsubscribe_def)
    then show ?thesis by (intro Cons.IH)
  next
    case SetStore
    with Cons.prems have r: "run_actions n cbs snap as (w\<lparr>store := Some snap\<rparr>) = Some w'" by simp
    from store_kept_aux(2)[OF r] Cons.prems(2) show ?thesis by (simp add: store_kept_def)
  qed
qed

lemma invoke_sets_store:
  "invoke n cbs L org snap w = Some w' \<Longrightarrow> snap = state w \<Longrightarrow> SetStore \<in> set (cbs L) \<Longrightarrow>
   store w' = Some snap"
  by (cases n) (auto dest: run_actions_sets_store)

lemma forEach_kept:
  "forEach n cbs i snap w = Some w' \<Longrightarrow> snap = state w \<Longrightarrow> never_unsubscribed cbs L \<Longrightarrow>
   store_kept w w' \<and> entry_kept L w w'"
proof (induction n cbs i snap w arbitrary: w' rule: forEach.induct)
  case (1 cbs i snap w)
  then show ?case by simp
next
  case (2 n cbs i snap w)
  show ?case
  proof (cases "i < length (listeners w)")
    case False
    with 2 show ?thesis by simp
  next
    case True
    show ?thesis
    proof (cases "listeners w ! i")
      case None
      with 2 True show ?thesis by simp
    next
      case (Some k)
      with 2(3) True obtain w1 where
        w1: "invoke n cbs k OnUpdate snap w = Some w1" and
        rest: "forEach n cbs (Suc i) snap w1 = Some w'"
        by (auto split: option.splits)
      note a = store_kept_aux(1)[OF w1 2(4)] entry_kept_aux(1)[OF w1 2(5)]
      from a(1) 2(4) have "snap = state w1" by (simp add: store_kept_def)
      from 2(2)[OF True Some w1 rest this 2(5)] a
      show ?thesis by (blast intro: store_kept_trans entry_kept_trans)
    qed
  qed
qed

lemma forEach_sets_store:
  "forEach n cbs i snap w = Some w' \<Longrightarrow> snap = state w \<Longrightarrow> never_unsubscribed cbs L \<Longrightarrow>
   SetStore \<in> set (cbs L) \<Longrightarrow> i \<le> j \<Longrightarrow> j < length (listeners w) \<Longrightarrow>
   listeners w ! j = Some L \<Longrightarrow> store w' = Some snap"
proof (induction n cbs i snap w arbitrary: w' rule: forEach.induct)
  case (1 cbs i snap w)
  then show ?case by simp
next
  case (2 n cbs i snap w)
  from 2(7,8) have True: "i < length (listeners w)" by simp
  show ?case
  proof (cases "listeners w ! i")
    case None
    with 2(9) have "i \<noteq> j" by auto
    with 2(7) have "Suc i \<le> j" by simp
    from 2(1)[OF True None _ 2(4,5,6) this 2(8,9)] 2(3) True None show ?thesis by simp
  next
    case (Some k)
    with 2(3) True obtain w1 where
      w1: "invoke n cbs k OnUpdate snap w = Some w1" and
      rest: "forEach n cbs (Suc i) snap w1 = Some w'"
      by (auto split: option.splits)
    note a = store_kept_aux(1)[OF w1 2(4)] entry_kept_aux(1)[OF w1 2(5)]
    from a(1) 2(4) have s1: "snap = state w1" by (simp add: store_kept_def)
    show ?thesis
    proof (cases "i = j")
      case True
      with Some 2(9) have "k = L" by simp
      with w1 have "store w1 = Some snap" using 2(4,6) by (auto dest: invoke_sets_store)
      with forEach_kept[OF rest s1 2(5)] s1 show ?thesis by (simp add: store_kept_def)
    next
      case False
      with 2(7) have le: "Suc i \<le> j" by simp
      from a(2) 2(8,9) have "j < length (listeners w1)" "listeners w1 ! j = Some L"
        by (simp_all add: entry_kept_def)
      from 2(2)[OF \<open>i < length (listeners w)\<close> Some w1 rest s1 2(5,6) le this] show ?thesis .
    qed
  qed
qed

lemma update_sets_store:
  assumes u: "update n cbs f w = Some w'" and L: "Some L \<in> set (listeners w)"
    and s: "SetStore \<in> set (cbs L)" and nu: "never_unsubscribed cbs L"
  shows "store w' = Some (state w')" "state w' = f (state w)" "Some L \<in> set (listeners w')"
proof -
  let ?w1 = "w\<lparr>state := f (state w)\<rparr>"
  from u have fe: "forEach n cbs 0 (state ?w1) ?w1 = Some w'" by (simp add: update_def Let_def)
  from L obtain j where j: "j < length (listeners ?w1)" "listeners ?w1 ! j = Some L"
    by (auto simp: in_set_conv_nth)
  note k = forEach_kept[OF fe refl nu]
  from k show st: "state w' = f (state w)" by (simp add: store_kept_def)
  from forEach_sets_store[OF fe refl nu s _ j] show "store w' = Some (state w')"
    by (simp add: st)
  from k j have "j < length (listeners w')" "listeners w' ! j = Some L"
    by (simp_all add: entry_kept_def)
  then show "Some L \<in> set (listeners w')" by (metis nth_mem)
qed

lemma update_app:
  "listeners w = [Some L] \<Longrightarrow> cbs L = [SetStore] \<Longrightarrow>
   update (Suc (Suc n)) cbs f w =
     Some (w\<lparr>state := f (state w), log := log w @ [(L, OnUpdate, f (state w))],
            store := Some (f (state w))\<rparr>)"
  by (simp add: update_def Let_def)

lemma app_world_eq:
  "app_world = createMockTransport\<lparr>listeners := [Some 0], store := Some initialState,
     log := [(0, OnSubscribe, initialState)]\<rparr>"
  by (simp add: app_world_def createStore_def app_cbs_def createMockTransport_def set_add_def
      Let_def)

section \<open>Toggling mute twice\<close>

text \<open>
  C9. Take any world in which the store exists and shows some state \<open>v\<close>, and in which
  the store's callback is subscribed and never unsubscribed (the store drops the
  unsubscribe function). Whenever two calls of the store's \<^verbatim>\<open>toggleMute()\<close> in succession
  both return, the visible \<open>me.muted\<close> is the negation of its original value after the
  first and its original value after the second. In the application, where the store's
  callback is the only listener, both calls return.
\<close>

theorem toggleMute_twice:
  assumes "store w = Some v" and "Some L \<in> set (listeners w)"
    and "SetStore \<in> set (cbs L)" and "never_unsubscribed cbs L"
  shows "(\<forall>w1 w2. toggleMute n cbs w = Some w1 \<and> toggleMute m cbs w1 = Some w2 \<longrightarrow>
            (\<exists>v1 v2. store w1 = Some v1 \<and> muted (me v1) = (\<not> muted (me v))
                \<and> store w2 = Some v2 \<and> muted (me v2) = muted (me v)))
         \<and> (listeners w = [Some L] \<and> cbs L = [SetStore] \<longrightarrow>
              (\<exists>w1 w2. toggleMute (Suc (Suc n)) cbs w = Some w1
                  \<and> toggleMute (Suc (Suc m)) cbs w1 = Some w2))"
proof (intro conjI allI impI)
  fix w1 w2
  assume a: "toggleMute n cbs w = Some w1 \<and> toggleMute m cbs w1 = Some w2"
  let ?b = "\<not> muted (me v)"
  let ?f = "\<lambda>w b s. s\<lparr>me := (me (state w))\<lparr>muted := b\<rparr>,
      users := map (\<lambda>user. if id_u user = 1
         then user\<lparr>muted_u := Some (muted ((me (state w))\<lparr>muted := b\<rparr>)),
                   deafened_u := Some (deafened ((me (state w))\<lparr>muted := b\<rparr>))\<rparr> else user)
         (users (state w))\<rparr>"
  from a assms(1) have u1: "update n cbs (?f w ?b) w = Some w1"
    by (simp add: toggleMute_def setMute_def updateMe_def Let_def)
  note r1 = update_sets_store[OF u1 assms(2,3,4)]
  from r1(1,2) have s1: "store w1 = Some (state w1)" and m1: "muted (me (state w1)) = ?b"
    by simp_all
  from a s1 have u2: "update m cbs (?f w1 (\<not> muted (me (state w1)))) w1 = Some w2"
    by (simp add: toggleMute_def setMute_def updateMe_def Let_def)
  note r2 = update_sets_store[OF u2 r1(3) assms(3,4)]
  from r2(1,2) m1 have "store w2 = Some (state w2)" "muted (me (state w2)) = muted (me v)"
    by simp_all
  with s1 m1 show "\<exists>v1 v2. store w1 = Some v1 \<and> muted (me v1) = (\<not> muted (me v))
                \<and> store w2 = Some v2 \<and> muted (me v2) = muted (me v)" by blast
next
  assume a: "listeners w = [Some L] \<and> cbs L = [SetStore]"
  then obtain w1 where t1: "toggleMute (Suc (Suc n)) cbs w = Some w1"
    and l1: "listeners w1 = [Some L]" and s1: "store w1 \<noteq> None"
    using assms(1) by (simp add: toggleMute_def setMute_def updateMe_def Let_def update_app)
  from s1 obtain v1 where "store w1 = Some v1" by auto
  with l1 a have "\<exists>w2. toggleMute (Suc (Suc m)) cbs w1 = Some w2"
    by (simp add: toggleMute_def setMute_def updateMe_def Let_def update_app)
  with t1 show "\<exists>w1 w2. toggleMute (Suc (Suc n)) cbs w = Some w1
                  \<and> toggleMute (Suc (Suc m)) cbs w1 = Some w2" by blast
qed

theorem toggleMute_twice_witness:
  "store app_world = Some initialState \<and> Some 0 \<in> set (listeners app_world)
   \<and> SetStore \<in> set (app_cbs 0) \<and> never_unsubscribed app_cbs 0
   \<and> muted (me initialState) = False
   \<and> (\<exists>w1 w2 v1 v2. toggleMute (Suc (Suc 0)) app_cbs app_world = Some w1
         \<and> toggleMute (Suc (Suc 0)) app_cbs w1 = Some w2
         \<and> store w1 = Some v1 \<and> muted (me v1) = True
         \<and> store w2 = Some v2 \<and> muted (me v2) = False)"
proof -
  have h: "store app_world = Some initialState" "Some 0 \<in> set (listeners app_world)"
    "SetStore \<in> set (app_cbs 0)" "never_unsubscribed app_cbs 0"
    by (simp_all add: app_world_eq app_cbs_def never_unsubscribed_def)
  have m0: "muted (me initialState) = False" by (simp add: initialState_def)
  have app: "listeners app_world = [Some 0] \<and> app_cbs 0 = [SetStore]"
    by (simp add: app_world_eq app_cbs_def)
  note th = toggleMute_twice[OF h, where n = "Suc (Suc 0)" and m = "Suc (Suc 0)"]
  from toggleMute_twice[OF h, where n = 0 and m = 0] app obtain w1 w2 where
    t: "toggleMute (Suc (Suc 0)) app_cbs app_world = Some w1 \<and> toggleMute (Suc (Suc 0)) app_cbs w1 = Some w2"
    by blast
  from th[THEN conjunct1, rule_format, OF t] m0 obtain v1 v2 where
    "store w1 = Some v1 \<and> muted (me v1) = True \<and> store w2 = Some v2 \<and> muted (me v2) = False"
    by auto
  with t h m0 show ?thesis by blast
qed

subsection \<open>The entry list during a pass\<close>

lemma entries_shrink_refl [simp]: "entries_shrink w w" by (simp add: entries_shrink_def)

lemma entries_shrink_trans:
  assumes "entries_shrink a b" "entries_shrink b c"
  shows "entries_shrink a c"
  unfolding entries_shrink_def
proof (intro conjI allI impI)
  from assms show "length (listeners a) \<le> length (listeners c)"
    by (simp add: entries_shrink_def)
  fix j assume j: "j < length (listeners a)"
  with assms(1) have jb: "j < length (listeners b)"
    and ab: "listeners b ! j = listeners a ! j \<or> listeners b ! j = None"
    by (simp_all add: entries_shrink_def)
  from assms(2) jb have "listeners c ! j = listeners b ! j \<or> listeners c ! j = None"
    by (simp add: entries_shrink_def)
  with ab show "listeners c ! j = listeners a ! j \<or> listeners c ! j = None" by auto
qed

lemma entries_shrink_left [simp]:
  "entries_shrink (w\<lparr>store := x\<rparr>) w' = entries_shrink w w'"
  "entries_shrink (w\<lparr>log := y\<rparr>) w' = entries_shrink w w'"
  "entries_shrink (w\<lparr>state := s\<rparr>) w' = entries_shrink w w'"
  by (simp_all add: entries_shrink_def)

lemma entries_shrink_add:
  "entries_shrink (w\<lparr>listeners := set_add k (listeners w)\<rparr>) w' \<Longrightarrow> entries_shrink w w'"
  by (auto simp: entries_shrink_def set_add_def nth_append split: if_splits)

lemma entries_shrink_unsubscribe:
  assumes "entries_shrink (unsubscribe k w) w'"
  shows "entries_shrink w w'"
proof -
  have "entries_shrink w (unsubscribe k w)"
    by (simp add: entries_shrink_def unsubscribe_def set_delete_def)
  from this assms show ?thesis by (rule entries_shrink_trans)
qed

lemma entries_shrink_aux:
  "invoke n cbs k org snap w = Some w' \<Longrightarrow> entries_shrink w w'"
  "run_actions n cbs snap as w = Some w' \<Longrightarrow> entries_shrink w w'"
  "subscribe n cbs k w = Some w' \<Longrightarrow> entries_shrink w w'"
proof (induction n cbs k org snap w and n cbs snap as w and n cbs k w
    arbitrary: w' and w' and w' rule: invoke_run_actions_subscribe.induct)
  case (1 cbs l org snap w)
  then show ?case by simp
next
  case (2 n cbs k org snap w)
  then show ?case by simp
next
  case (3 n cbs snap w)
  then show ?case by simp
next
  case (4 n cbs snap k as w)
  from 4(3) obtain w1 where s: "subscribe n cbs k w = Some w1"
    and r: "run_actions n cbs snap as w1 = Some w'" by (auto split: option.splits)
  from 4(1)[OF s] 4(2)[OF s r] show ?case by (rule entries_shrink_trans)
next
  case (5 n cbs snap k as w)
  then have "entries_shrink (unsubscribe k w) w'" by simp
  then show ?case by (rule entries_shrink_unsubscribe)
next
  case (6 n cbs snap as w)
  then show ?case by simp
next
  case (7 n cbs k w)
  then have "entries_shrink (w\<lparr>listeners := set_add k (listeners w)\<rparr>) w'" by (simp add: Let_def)
  then show ?case by (rule entries_shrink_add)
qed

lemma forEach_entries_shrink:
  "forEach n cbs i snap w = Some w' \<Longrightarrow> entries_shrink w w'"
proof (induction n cbs i snap w arbitrary: w' rule: forEach.induct)
  case (1 cbs i snap w)
  then show ?case by simp
next
  case (2 n cbs i snap w)
  show ?case
  proof (cases "i < length (listeners w)")
    case False
    with 2 show ?thesis by simp
  next
    case True
    show ?thesis
    proof (cases "listeners w ! i")
      case None
      with 2 True show ?thesis by simp
    next
      case (Some k)
      with 2(3) True obtain w1 where
        w1: "invoke n cbs k OnUpdate snap w = Some w1" and
        rest: "forEach n cbs (Suc i) snap w1 = Some w'"
        by (auto split: option.splits)
      from entries_shrink_aux(1)[OF w1] 2(2)[OF True Some w1 rest]
      show ?thesis by (rule entries_shrink_trans)
    qed
  qed
qed

lemma entries_shrink_nth:
  "entries_shrink w w' \<Longrightarrow> j < length (listeners w) \<Longrightarrow> listeners w' ! j = Some l \<Longrightarrow>
   listeners w ! j = Some l"
  by (auto simp: entries_shrink_def)

lemma invoke_logs:
  assumes "invoke n cbs k org snap w = Some w'"
  shows "\<exists>es. log w' = log w @ (k, org, snap) # es"
proof -
  from assms obtain m where n: "n = Suc m" by (cases n) auto
  with assms have "run_actions m cbs snap (cbs k) (w\<lparr>log := log w @ [(k, org, snap)]\<rparr>) = Some w'"
    by simp
  from delivers_aux(2)[OF this] show ?thesis by (auto simp: delivers_def)
qed

lemma forEach_logs:
  "forEach n cbs i snap w = Some w' \<Longrightarrow> \<exists>es. log w' = log w @ es"
proof (induction n cbs i snap w arbitrary: w' rule: forEach.induct)
  case (1 cbs i snap w)
  then show ?case by simp
next
  case (2 n cbs i snap w)
  show ?case
  proof (cases "i < length (listeners w)")
    case False
    with 2 show ?thesis by simp
  next
    case True
    show ?thesis
    proof (cases "listeners w ! i")
      case None
      with 2 True show ?thesis by simp
    next
      case (Some k)
      with 2(3) True obtain w1 where
        w1: "invoke n cbs k OnUpdate snap w = Some w1" and
        rest: "forEach n cbs (Suc i) snap w1 = Some w'"
        by (auto split: option.splits)
      from invoke_logs[OF w1] 2(2)[OF True Some w1 rest] show ?thesis by auto
    qed
  qed
qed

text \<open>Every listener in the set when the pass ends was called by the pass.\<close>

lemma forEach_reaches:
  "forEach n cbs i snap w = Some w' \<Longrightarrow> i \<le> j \<Longrightarrow> j < length (listeners w') \<Longrightarrow>
   listeners w' ! j = Some l \<Longrightarrow> (l, OnUpdate, snap) \<in> set (emitted w w')"
proof (induction n cbs i snap w arbitrary: w' rule: forEach.induct)
  case (1 cbs i snap w)
  then show ?case by simp
next
  case (2 n cbs i snap w)
  show ?case
  proof (cases "i < length (listeners w)")
    case False
    with 2 show ?thesis by simp
  next
    case True
    show ?thesis
    proof (cases "listeners w ! i")
      case None
      with 2(3) True have rest: "forEach n cbs (Suc i) snap w = Some w'" by simp
      have "i \<noteq> j"
      proof
        assume "i = j"
        with entries_shrink_nth[OF forEach_entries_shrink[OF rest] True] 2(6) None
        show False by simp
      qed
      with 2(4) have "Suc i \<le> j" by simp
      from 2(1)[OF True None rest this 2(5,6)] show ?thesis .
    next
      case (Some k)
      with 2(3) True obtain w1 where
        w1: "invoke n cbs k OnUpdate snap w = Some w1" and
        rest: "forEach n cbs (Suc i) snap w1 = Some w'"
        by (auto split: option.splits)
      from invoke_logs[OF w1] obtain es where es: "log w1 = log w @ (k, OnUpdate, snap) # es"
        by blast
      from forEach_logs[OF rest] obtain es' where es': "log w' = log w1 @ es'" by blast
      have em: "emitted w w' = (k, OnUpdate, snap) # es @ es'" "emitted w1 w' = es'"
        using es es' by (simp_all add: emitted_def)
      show ?thesis
      proof (cases "i = j")
        case True
        have "entries_shrink w w'"
          using entries_shrink_aux(1)[OF w1] forEach_entries_shrink[OF rest]
          by (rule entries_shrink_trans)
        from entries_shrink_nth[OF this \<open>i < length (listeners w)\<close>] 2(6) True Some
        have "k = l" by simp
        then show ?thesis by (simp add: em)
      next
        case False
        with 2(4) have "Suc i \<le> j" by simp
        from 2(2)[OF True Some w1 rest this 2(5,6)] show ?thesis by (simp add: em)
      qed
    qed
  qed
qed

lemma run_actions_unsubscribes:
  "run_actions n cbs snap as w = Some w' \<Longrightarrow> never_subscribed cbs b \<Longrightarrow>
   Subscribe b \<notin> set as \<Longrightarrow> Unsubscribe b \<in> set as \<or> Some b \<notin> set (listeners w) \<Longrightarrow>
   Some b \<notin> set (listeners w')"
proof (induction as arbitrary: w)
  case Nil
  then show ?case by simp
next
  case (Cons a as)
  from Cons.prems(3) have nas: "Subscribe b \<notin> set as" by simp
  show ?case
  proof (cases a)
    case (Subscribe k)
    with Cons.prems(1) obtain w1 where s: "subscribe n cbs k w = Some w1"
      and r: "run_actions n cbs snap as w1 = Some w'" by (auto split: option.splits)
    from Subscribe Cons.prems(3) have "k \<noteq> b" by auto
    from uncalled_aux(3)[OF s Cons.prems(2) this]
    have "Some b \<notin> set (listeners w) \<longrightarrow> Some b \<notin> set (listeners w1)"
      by (simp add: uncalled_def)
    with Cons.prems(4) Subscribe have "Unsubscribe b \<in> set as \<or> Some b \<notin> set (listeners w1)"
      by auto
    from Cons.IH[OF r Cons.prems(2) nas this] show ?thesis .
  next
    case (Unsubscribe k)
    with Cons.prems(1) have r: "run_actions n cbs snap as (unsubscribe k w) = Some w'" by simp
    have "Unsubscribe b \<in> set as \<or> Some b \<notin> set (listeners (unsubscribe k w))"
      using Cons.prems(4) Unsubscribe by (auto simp: unsubscribe_def set_delete_def)
    from Cons.IH[OF r Cons.prems(2) nas this] show ?thesis .
  next
    case SetStore
    with Cons.prems(1) have r: "run_actions n cbs snap as (w\<lparr>store := Some snap\<rparr>) = Some w'"
      by simp
    have "Unsubscribe b \<in> set as \<or> Some b \<notin> set (listeners (w\<lparr>store := Some snap\<rparr>))"
      using Cons.prems(4) SetStore by auto
    from Cons.IH[OF r Cons.prems(2) nas this] show ?thesis .
  qed
qed

lemma invoke_unsubscribes:
  assumes "invoke n cbs a org snap w = Some w'" "never_subscribed cbs b"
    "Unsubscribe b \<in> set (cbs a)"
  shows "Some b \<notin> set (listeners w')"
proof -
  from assms(1) obtain m where n: "n = Suc m" by (cases n) auto
  with assms(1) have r: "run_actions m cbs snap (cbs a) (w\<lparr>log := log w @ [(a, org, snap)]\<rparr>) = Some w'"
    by simp
  from assms(2) have "Subscribe b \<notin> set (cbs a)" by (simp add: never_subscribed_def)
  from run_actions_unsubscribes[OF r assms(2) this] assms(3) show ?thesis by simp
qed

text \<open>A listener unsubscribed by a callback earlier in the pass is skipped.\<close>

lemma forEach_skips:
  "forEach n cbs i0 snap w = Some w' \<Longrightarrow> never_subscribed cbs b \<Longrightarrow>
   never_unsubscribed cbs a \<Longrightarrow> Unsubscribe b \<in> set (cbs a) \<Longrightarrow> i0 \<le> i \<Longrightarrow>
   i < length (listeners w) \<Longrightarrow> listeners w ! i = Some a \<Longrightarrow>
   \<forall>j. i0 \<le> j \<and> j \<le> i \<longrightarrow> listeners w ! j \<noteq> Some b \<Longrightarrow>
   (\<exists>es. log w' = log w @ es \<and> b \<notin> fst ` set es) \<and> Some b \<notin> set (listeners w')"
proof (induction n cbs i0 snap w arbitrary: w' rule: forEach.induct)
  case (1 cbs i snap w)
  then show ?case by simp
next
  case (2 n cbs i0 snap w)
  from 2(7,8) have True: "i0 < length (listeners w)" by simp
  show ?case
  proof (cases "listeners w ! i0")
    case None
    with 2(9) have "i0 \<noteq> i" by auto
    with 2(7) have "Suc i0 \<le> i" by simp
    moreover have "\<forall>j. Suc i0 \<le> j \<and> j \<le> i \<longrightarrow> listeners w ! j \<noteq> Some b"
      using 2(10) by auto
    ultimately show ?thesis
      using 2(1)[OF True None _ 2(4,5,6) _ 2(8,9)] 2(3) True None by simp
  next
    case (Some k)
    with 2(3) True obtain w1 where
      w1: "invoke n cbs k OnUpdate snap w = Some w1" and
      rest: "forEach n cbs (Suc i0) snap w1 = Some w'"
      by (auto split: option.splits)
    from 2(10) 2(7) Some have kb: "k \<noteq> b" by auto
    from uncalled_aux(1)[OF w1 2(4) kb] obtain es1 where
      es1: "log w1 = log w @ es1" "b \<notin> fst ` set es1" by (auto simp: uncalled_def)
    show ?thesis
    proof (cases "i0 = i")
      case True
      with Some 2(9) have "k = a" by simp
      with w1 have "Some b \<notin> set (listeners w1)"
        using 2(4,6) by (auto dest: invoke_unsubscribes)
      from forEach_uncalled[OF rest 2(4) this] this obtain es2 where
        "log w' = log w1 @ es2" "b \<notin> fst ` set es2" "Some b \<notin> set (listeners w')"
        by (auto simp: uncalled_def)
      with es1 show ?thesis by auto
    next
      case False
      with 2(7) have le: "Suc i0 \<le> i" by simp
      note sh = entries_shrink_aux(1)[OF w1]
      from entry_kept_aux(1)[OF w1 2(5)] 2(8,9)
      have i1: "i < length (listeners w1)" "listeners w1 ! i = Some a"
        by (simp_all add: entry_kept_def)
      have nb: "\<forall>j. Suc i0 \<le> j \<and> j \<le> i \<longrightarrow> listeners w1 ! j \<noteq> Some b"
      proof (intro allI impI)
        fix j assume j: "Suc i0 \<le> j \<and> j \<le> i"
        with 2(8) have "j < length (listeners w)" by simp
        from entries_shrink_nth[OF sh this, of b] 2(10) j
        show "listeners w1 ! j \<noteq> Some b" by auto
      qed
      from 2(2)[OF True Some w1 rest 2(4,5,6) le i1 nb] obtain es2 where
        "log w' = log w1 @ es2" "b \<notin> fst ` set es2" "Some b \<notin> set (listeners w')"
        by auto
      with es1 show ?thesis by auto
    qed
  qed
qed

lemma pass_recipients_subset: "set (pass_recipients es) \<subseteq> fst ` set es"
  by (auto simp: pass_recipients_def)

lemma pass_recipients_map [simp]:
  "pass_recipients (map (\<lambda>l. (l, OnUpdate, s)) ls) = ls"
  by (induction ls) (simp_all add: pass_recipients_def)

lemma pass_recipients_mem:
  "(l, OnUpdate, s) \<in> set es \<Longrightarrow> l \<in> set (pass_recipients es)"
  by (force simp: pass_recipients_def)

lemma update_emitted:
  assumes "update n cbs f w = Some w'"
  shows "forEach n cbs 0 (f (state w)) (w\<lparr>state := f (state w)\<rparr>) = Some w'"
    "emitted (w\<lparr>state := f (state w)\<rparr>) w' = emitted w w'"
  using assms by (simp_all add: update_def Let_def emitted_def)

lemma duo_eq:
  "duo = createMockTransport\<lparr>listeners := [Some 1, Some 2],
     log := [(1, OnSubscribe, initialState), (2, OnSubscribe, initialState)]\<rparr>"
  by (simp add: duo_def unsub_cbs_def createMockTransport_def set_add_def set_delete_def
      unsubscribe_def Let_def)

lemma solo_eq:
  "solo = createMockTransport\<lparr>listeners := [Some 1, None],
     log := [(1, OnSubscribe, initialState), (3, OnSubscribe, initialState)]\<rparr>"
  by (simp add: solo_def sub_cbs_def createMockTransport_def set_add_def set_delete_def
      unsubscribe_def Let_def)

section \<open>Delivery iterates over the live listener set\<close>

text \<open>
  C7 as written fails. With listeners 1 and 2 subscribed, where the callback of 1
  unsubscribes 2, a pass delivers to 1 only: listener 2, in the set at the moment of
  emission, is excluded from the pass. With listener 1 alone in the set, where the
  callback of 1 subscribes 3, a pass delivers to 1 and to 3: listener 3, absent at the
  moment of emission, receives the snapshot of the pass.
\<close>

theorem live_iteration_counterexample:
  "live (listeners duo) = [1, 2]
   \<and> setMute (Suc (Suc (Suc 0))) unsub_cbs True duo \<noteq> None
   \<and> pass_recipients (emitted duo (the (setMute (Suc (Suc (Suc 0))) unsub_cbs True duo))) = [1]
   \<and> live (listeners solo) = [1]
   \<and> setMute (Suc (Suc (Suc (Suc 0)))) sub_cbs True solo \<noteq> None
   \<and> pass_recipients (emitted solo (the (setMute (Suc (Suc (Suc (Suc 0)))) sub_cbs True solo)))
       = [1, 3]"
  by (simp add: duo_eq solo_eq unsub_cbs_def sub_cbs_def createMockTransport_def setMute_def
      updateMe_def update_def Let_def set_add_def set_delete_def unsubscribe_def emitted_def
      pass_recipients_def)

text \<open>
  C7, as the code has it. \<^verbatim>\<open>update\<close> walks the live entry list of the listener \<^verbatim>\<open>Set\<close>.
  Every listener that is in the set when the pass ends, one subscribed during the pass
  included, has received the snapshot of the pass. With listeners that only observe,
  the pass delivers to the listeners in the set at emission, each once, in insertion
  order. A listener \<open>b\<close> whose entries all come after that of a listener \<open>a\<close>, where the
  callback of \<open>a\<close> unsubscribes \<open>b\<close>, receives nothing in the pass (\<open>a\<close> is not
  unsubscribed and \<open>b\<close> not subscribed by any callback).
\<close>

theorem live_iteration:
  "(\<forall>w' l. update n cbs f w = Some w' \<and> Some l \<in> set (listeners w') \<longrightarrow>
       (l, OnUpdate, getState w') \<in> set (emitted w w')
       \<and> l \<in> set (pass_recipients (emitted w w')))
   \<and> (passive_cbs cbs \<and> length (listeners w) < n \<longrightarrow>
        (\<exists>w'. update n cbs f w = Some w'
            \<and> pass_recipients (emitted w w') = live (listeners w)))
   \<and> (\<forall>w' i a b. update n cbs f w = Some w' \<and> i < length (listeners w)
          \<and> listeners w ! i = Some a \<and> (\<forall>j \<le> i. listeners w ! j \<noteq> Some b)
          \<and> Unsubscribe b \<in> set (cbs a) \<and> never_subscribed cbs b \<and> never_unsubscribed cbs a \<longrightarrow>
          b \<notin> set (pass_recipients (emitted w w')))"
proof (intro conjI allI impI)
  fix w' l
  assume a: "update n cbs f w = Some w' \<and> Some l \<in> set (listeners w')"
  then have u: "update n cbs f w = Some w'" by simp
  note fe = update_emitted[OF u]
  from a obtain j where j: "j < length (listeners w')" "listeners w' ! j = Some l"
    by (auto simp: in_set_conv_nth)
  from forEach_reaches[OF fe(1) _ j] have "(l, OnUpdate, f (state w)) \<in> set (emitted w w')"
    by (simp add: fe(2))
  moreover have "getState w' = f (state w)" using update_result(1)[OF u] by simp
  ultimately show m: "(l, OnUpdate, getState w') \<in> set (emitted w w')" by simp
  then show "l \<in> set (pass_recipients (emitted w w'))" by (rule pass_recipients_mem)
next
  assume "passive_cbs cbs \<and> length (listeners w) < n"
  then show "\<exists>w'. update n cbs f w = Some w'
            \<and> pass_recipients (emitted w w') = live (listeners w)"
    by (simp add: update_passive emitted_def)
next
  fix w' i a b
  assume h: "update n cbs f w = Some w' \<and> i < length (listeners w)
          \<and> listeners w ! i = Some a \<and> (\<forall>j \<le> i. listeners w ! j \<noteq> Some b)
          \<and> Unsubscribe b \<in> set (cbs a) \<and> never_subscribed cbs b \<and> never_unsubscribed cbs a"
  then have u: "update n cbs f w = Some w'" by simp
  note fe = update_emitted[OF u]
  let ?w1 = "w\<lparr>state := f (state w)\<rparr>"
  from h have "never_subscribed cbs b" "never_unsubscribed cbs a" "Unsubscribe b \<in> set (cbs a)"
    "i < length (listeners ?w1)" "listeners ?w1 ! i = Some a"
    "\<forall>j. 0 \<le> j \<and> j \<le> i \<longrightarrow> listeners ?w1 ! j \<noteq> Some b" by simp_all
  from forEach_skips[OF fe(1) this(1,2,3) _ this(4,5,6)] obtain es where
    "log w' = log ?w1 @ es" "b \<notin> fst ` set es" by auto
  then have "emitted w w' = es" "b \<notin> fst ` set es" by (simp_all add: emitted_def)
  with pass_recipients_subset[of es] show "b \<notin> set (pass_recipients (emitted w w'))" by auto
qed

theorem live_iteration_witness:
  "passive_cbs observers \<and> length (listeners two_observers) < 3
   \<and> (\<exists>w'. update 3 observers (\<lambda>s. s) two_observers = Some w'
          \<and> pass_recipients (emitted two_observers w') = [7, 8])
   \<and> (\<exists>w'. update (Suc (Suc (Suc (Suc 0)))) sub_cbs (\<lambda>s. s) solo = Some w'
          \<and> Some 3 \<in> set (listeners w') \<and> Some 3 \<notin> set (listeners solo)
          \<and> 3 \<in> set (pass_recipients (emitted solo w')))
   \<and> (\<exists>w'. update (Suc (Suc (Suc 0))) unsub_cbs (\<lambda>s. s) duo = Some w'
          \<and> listeners duo ! 0 = Some 1 \<and> Some 2 \<in> set (listeners duo)
          \<and> Unsubscribe 2 \<in> set (unsub_cbs 1)
          \<and> never_subscribed unsub_cbs 2 \<and> never_unsubscribed unsub_cbs 1
          \<and> 2 \<notin> set (pass_recipients (emitted duo w')))"
proof -
  have len: "length (listeners two_observers) < 3" and lv: "live (listeners two_observers) = [7, 8]"
    by (simp_all add: two_observers_eq)
  from live_iteration[where n = 3 and cbs = observers and f = "\<lambda>s. s" and w = two_observers]
    passive_observers len lv
  have p2: "\<exists>w'. update 3 observers (\<lambda>s. s) two_observers = Some w'
          \<and> pass_recipients (emitted two_observers w') = [7, 8]" by auto
  have "\<exists>w'. update (Suc (Suc (Suc (Suc 0)))) sub_cbs (\<lambda>s. s) solo = Some w'
      \<and> Some 3 \<in> set (listeners w')"
    by (simp add: solo_eq sub_cbs_def createMockTransport_def update_def Let_def set_add_def)
  then obtain x where x: "update (Suc (Suc (Suc (Suc 0)))) sub_cbs (\<lambda>s. s) solo = Some x"
    "Some 3 \<in> set (listeners x)" by blast
  have nl: "Some 3 \<notin> set (listeners solo)" by (simp add: solo_eq)
  from live_iteration[where n = "Suc (Suc (Suc (Suc 0)))" and cbs = sub_cbs and f = "\<lambda>s. s"
      and w = solo] x
  have "3 \<in> set (pass_recipients (emitted solo x))" by blast
  with x nl have p1: "\<exists>w'. update (Suc (Suc (Suc (Suc 0)))) sub_cbs (\<lambda>s. s) solo = Some w'
          \<and> Some 3 \<in> set (listeners w') \<and> Some 3 \<notin> set (listeners solo)
          \<and> 3 \<in> set (pass_recipients (emitted solo w'))" by blast
  have "\<exists>w'. update (Suc (Suc (Suc 0))) unsub_cbs (\<lambda>s. s) duo = Some w'"
    by (simp add: duo_eq unsub_cbs_def createMockTransport_def update_def Let_def
        unsubscribe_def set_delete_def)
  then obtain y where y: "update (Suc (Suc (Suc 0))) unsub_cbs (\<lambda>s. s) duo = Some y" by blast
  have h: "(0::nat) < length (listeners duo)" "listeners duo ! 0 = Some 1"
    "\<forall>j \<le> 0. listeners duo ! j \<noteq> Some 2" "Some 2 \<in> set (listeners duo)"
    "Unsubscribe 2 \<in> set (unsub_cbs 1)" "never_subscribed unsub_cbs 2"
    "never_unsubscribed unsub_cbs 1"
    by (simp_all add: duo_eq unsub_cbs_def never_subscribed_def never_unsubscribed_def)
  from live_iteration[where n = "Suc (Suc (Suc 0))" and cbs = unsub_cbs and f = "\<lambda>s. s"
      and w = duo, THEN conjunct2, THEN conjunct2, rule_format, of y 0 1 2] y h
  have "2 \<notin> set (pass_recipients (emitted duo y))" by blast
  with y h have p3: "\<exists>w'. update (Suc (Suc (Suc 0))) unsub_cbs (\<lambda>s. s) duo = Some w'
          \<and> listeners duo ! 0 = Some 1 \<and> Some 2 \<in> set (listeners duo)
          \<and> Unsubscribe 2 \<in> set (unsub_cbs 1)
          \<and> never_subscribed unsub_cbs 2 \<and> never_unsubscribed unsub_cbs 1
          \<and> 2 \<notin> set (pass_recipients (emitted duo w'))" by blast
  from passive_observers len p2 p1 p3 show ?thesis by blast
qed

subsection \<open>Reading the heap\<close>

lemma deref_append [simp]: "a < length h \<Longrightarrow> deref (h @ xs) a = deref h a"
  by (simp add: deref_def nth_append)

lemma deref_new [simp]: "deref (h @ ob # xs) (length h) = Some ob"
  by (simp add: deref_def nth_append)

lemma deref_Some_less: "deref h a = Some ob \<Longrightarrow> a < length h"
  by (simp add: deref_def split: if_splits)

lemma deref_nth: "a < length h \<Longrightarrow> deref h a = Some (h ! a)"
  by (simp add: deref_def)

lemma those_map_cong: "(\<And>x. x \<in> set xs \<Longrightarrow> f x = g x) \<Longrightarrow> those (map f xs) = those (map g xs)"
  by (induction xs) (auto split: option.splits)

lemma those_map_Some: "those (map f xs) = Some ys \<Longrightarrow> x \<in> set xs \<Longrightarrow> f x \<noteq> None"
  by (induction xs arbitrary: ys) (auto split: option.splits)

lemma the_channel_less: "the_channel h a \<noteq> None \<Longrightarrow> a < length h"
  by (auto simp: the_channel_def deref_def split: if_splits)

lemma the_user_less: "the_user h a \<noteq> None \<Longrightarrow> a < length h"
  by (auto simp: the_user_def deref_def split: if_splits)

text \<open>What a successful read has looked at.\<close>

lemma read_state_parts:
  assumes "read_state h a = Some v"
  obtains c s ch m cs us cas uas where
    "deref h a = Some (StateObj c s ch m cs us)"
    "deref h m = Some (MeObj (me v))"
    "deref h cs = Some (ArrayObj cas)" "those (map (the_channel h) cas) = Some (channels v)"
    "deref h us = Some (ArrayObj uas)" "those (map (the_user h) uas) = Some (users v)"
    "connState v = c" "currentServer v = s" "currentChannelId v = ch"
    "reach h a = a # m # cs # us # cas @ uas"
  using assms
  by (auto simp: read_state_def the_me_def read_channels_def read_users_def the_array_def
      reach_def elems_def split: option.splits obj.splits)

lemma reach_less:
  assumes "read_state h a = Some v" "x \<in> set (reach h a)"
  shows "x < length h"
proof -
  from assms(1) obtain c s ch m cs us cas uas where p:
    "deref h a = Some (StateObj c s ch m cs us)"
    "deref h m = Some (MeObj (me v))"
    "deref h cs = Some (ArrayObj cas)" "those (map (the_channel h) cas) = Some (channels v)"
    "deref h us = Some (ArrayObj uas)" "those (map (the_user h) uas) = Some (users v)"
    "reach h a = a # m # cs # us # cas @ uas"
    by (rule read_state_parts)
  from assms(2) p(7) consider "x = a" | "x = m" | "x = cs" | "x = us" | "x \<in> set cas" | "x \<in> set uas"
    by auto
  then show ?thesis
  proof cases
    case 5
    from those_map_Some[OF p(4) 5] show ?thesis by (rule the_channel_less)
  next
    case 6
    from those_map_Some[OF p(6) 6] show ?thesis by (rule the_user_less)
  qed (use p in \<open>auto dest: deref_Some_less\<close>)
qed

text \<open>A read depends on the objects of its graph only.\<close>

lemma read_state_frame:
  assumes r: "read_state g a = Some u" and len: "length g \<le> length g'"
    and eq: "\<forall>x \<in> set (reach g a). g' ! x = g ! x"
  shows "read_state g' a = Some u"
proof -
  from r obtain c s ch m cs us cas uas where p:
    "deref g a = Some (StateObj c s ch m cs us)"
    "deref g m = Some (MeObj (me u))"
    "deref g cs = Some (ArrayObj cas)" "those (map (the_channel g) cas) = Some (channels u)"
    "deref g us = Some (ArrayObj uas)" "those (map (the_user g) uas) = Some (users u)"
    "connState u = c" "currentServer u = s" "currentChannelId u = ch"
    "reach g a = a # m # cs # us # cas @ uas"
    by (rule read_state_parts)
  have d: "deref g' x = deref g x" if "x \<in> set (reach g a)" for x
  proof -
    from reach_less[OF r that] have "x < length g" .
    with len eq that show ?thesis by (simp add: deref_def)
  qed
  have 1: "deref g' a = Some (StateObj c s ch m cs us)" "deref g' m = Some (MeObj (me u))"
    "deref g' cs = Some (ArrayObj cas)" "deref g' us = Some (ArrayObj uas)"
    using d p by simp_all
  have "those (map (the_channel g') cas) = those (map (the_channel g) cas)"
    by (rule those_map_cong) (simp add: the_channel_def d p(10))
  moreover have "those (map (the_user g') uas) = those (map (the_user g) uas)"
    by (rule those_map_cong) (simp add: the_user_def d p(10))
  ultimately show ?thesis
    using 1 p(4,6,7,8,9)
    by (simp add: read_state_def the_me_def read_channels_def read_users_def the_array_def)
qed

subsection \<open>Copies are new objects\<close>

lemma copy_obj_eq: "a < length h \<Longrightarrow> copy_obj h a = Some (length h, h @ [h ! a])"
  by (simp add: copy_obj_def deref_def alloc_def)

lemma copy_elems_spec:
  "\<forall>a \<in> set as. a < length h \<Longrightarrow>
   \<exists>bs new. copy_elems h as = Some (bs, h @ new)
      \<and> (\<forall>b \<in> set bs. length h \<le> b \<and> b < length (h @ new))
      \<and> map (deref (h @ new)) bs = map (deref h) as"
proof (induction as arbitrary: h)
  case Nil
  have "copy_elems h [] = Some ([], h @ [])" by simp
  then show ?case by fastforce
next
  case (Cons a as)
  let ?h1 = "h @ [h ! a]"
  from Cons.prems have a: "a < length h" and as: "\<forall>x \<in> set as. x < length h" by simp_all
  then have "\<forall>x \<in> set as. x < length ?h1" by auto
  from Cons.IH[OF this] obtain bs new where
    c: "copy_elems ?h1 as = Some (bs, ?h1 @ new)"
    and f: "\<forall>b \<in> set bs. length ?h1 \<le> b \<and> b < length (?h1 @ new)"
    and d: "map (deref (?h1 @ new)) bs = map (deref ?h1) as" by blast
  have d1: "map (deref ?h1) as = map (deref h) as" using as by simp
  have "copy_elems h (a # as) = Some (length h # bs, h @ (h ! a # new))"
    using a c by (simp add: copy_obj_eq)
  moreover have "\<forall>b \<in> set (length h # bs). length h \<le> b \<and> b < length (h @ (h ! a # new))"
    using f by auto
  moreover have "map (deref (h @ (h ! a # new))) (length h # bs) = map (deref h) (a # as)"
    using d d1 a by (simp add: deref_nth)
  ultimately show ?case by blast
qed

lemma map_copy_spec:
  assumes "deref h arr = Some (ArrayObj as)" "\<forall>a \<in> set as. a < length h"
  shows "\<exists>arr' bs new. map_copy h arr = Some (arr', h @ new)
      \<and> length h \<le> arr' \<and> arr' < length (h @ new)
      \<and> deref (h @ new) arr' = Some (ArrayObj bs)
      \<and> (\<forall>b \<in> set bs. length h \<le> b \<and> b < length (h @ new))
      \<and> map (deref (h @ new)) bs = map (deref h) as"
proof -
  from copy_elems_spec[OF assms(2)] obtain bs new where
    c: "copy_elems h as = Some (bs, h @ new)"
    and f: "\<forall>b \<in> set bs. length h \<le> b \<and> b < length (h @ new)"
    and d: "map (deref (h @ new)) bs = map (deref h) as" by blast
  let ?new = "new @ [ArrayObj bs]"
  have "map_copy h arr = Some (length (h @ new), h @ ?new)"
    using assms(1) c by (simp add: map_copy_def alloc_def)
  moreover have "deref (h @ ?new) (length (h @ new)) = Some (ArrayObj bs)"
    using deref_new[of "h @ new" "ArrayObj bs" "[]"] by simp
  moreover have "map (deref (h @ ?new)) bs = map (deref h) as"
  proof -
    have "deref ((h @ new) @ [ArrayObj bs]) x = deref (h @ new) x" if "x \<in> set bs" for x
      using f that by (intro deref_append) simp
    then have "map (deref ((h @ new) @ [ArrayObj bs])) bs = map (deref (h @ new)) bs"
      by (intro map_cong) simp_all
    with d show ?thesis by simp
  qed
  moreover have "\<forall>b \<in> set bs. length h \<le> b \<and> b < length (h @ ?new)" using f by auto
  ultimately show ?thesis
    by (intro exI[of _ "length (h @ new)"] exI[of _ bs] exI[of _ ?new]) simp
qed

lemma those_deref_cong:
  assumes "map (deref h') bs = map (deref h) as"
  shows "those (map (the_channel h') bs) = those (map (the_channel h) as)"
    "those (map (the_user h') bs) = those (map (the_user h) as)"
proof -
  have "map (the_channel h') bs = map (\<lambda>d. case d of Some (ChannelObj c) \<Rightarrow> Some c | _ \<Rightarrow> None) (map (deref h') bs)"
    by (simp add: the_channel_def comp_def)
  also have "\<dots> = map (the_channel h) as" unfolding assms by (simp add: the_channel_def comp_def)
  finally show "those (map (the_channel h') bs) = those (map (the_channel h) as)" by simp
  have "map (the_user h') bs = map (\<lambda>d. case d of Some (UserObj c) \<Rightarrow> Some c | _ \<Rightarrow> None) (map (deref h') bs)"
    by (simp add: the_user_def comp_def)
  also have "\<dots> = map (the_user h) as" unfolding assms by (simp add: the_user_def comp_def)
  finally show "those (map (the_user h') bs) = those (map (the_user h) as)" by simp
qed

lemma map_deref_append:
  "\<forall>b \<in> set bs. b < length h \<Longrightarrow> map (deref (h @ xs)) bs = map (deref h) bs"
  by (intro map_cong refl) simp

lemma snapshot_h_spec:
  assumes r: "read_state h a = Some v"
  shows "\<exists>s new. snapshot_h h a = Some (s, h @ new)
      \<and> read_state (h @ new) s = Some v
      \<and> (\<forall>x \<in> set (reach (h @ new) s). length h \<le> x \<and> x < length (h @ new))"
proof -
  from r obtain c sv ch m cs us cas uas where p:
    "deref h a = Some (StateObj c sv ch m cs us)"
    "deref h m = Some (MeObj (me v))"
    "deref h cs = Some (ArrayObj cas)" "those (map (the_channel h) cas) = Some (channels v)"
    "deref h us = Some (ArrayObj uas)" "those (map (the_user h) uas) = Some (users v)"
    "connState v = c" "currentServer v = sv" "currentChannelId v = ch"
    "reach h a = a # m # cs # us # cas @ uas"
    by (rule read_state_parts)
  have in_h: "x < length h" if "x \<in> set (reach h a)" for x
    using reach_less[OF r that] .
  have lt: "m < length h" "cs < length h" "us < length h"
    "\<forall>x \<in> set cas. x < length h" "\<forall>x \<in> set uas. x < length h"
    using in_h p(10) by simp_all
  \<comment> \<open>the copy of \<open>me\<close>\<close>
  let ?h1 = "h @ [MeObj (me v)]"
  have hm: "h ! m = MeObj (me v)" using p(2) lt(1) by (simp add: deref_def)
  have c1: "copy_obj h m = Some (length h, ?h1)" using lt(1) hm by (simp add: copy_obj_eq)
  \<comment> \<open>the copy of the channels\<close>
  have "deref ?h1 cs = Some (ArrayObj cas)" "\<forall>x \<in> set cas. x < length ?h1"
    using p(3) lt by auto
  from map_copy_spec[OF this] obtain cs' bs new2 where c2:
    "map_copy ?h1 cs = Some (cs', ?h1 @ new2)"
    "length ?h1 \<le> cs'" "cs' < length (?h1 @ new2)"
    "deref (?h1 @ new2) cs' = Some (ArrayObj bs)"
    "\<forall>b \<in> set bs. length ?h1 \<le> b \<and> b < length (?h1 @ new2)"
    "map (deref (?h1 @ new2)) bs = map (deref ?h1) cas" by blast
  let ?h2 = "?h1 @ new2"
  \<comment> \<open>the copy of the users\<close>
  have "deref ?h2 us = Some (ArrayObj uas)" "\<forall>x \<in> set uas. x < length ?h2"
    using p(5) lt by auto
  from map_copy_spec[OF this] obtain us' bs' new3 where c3:
    "map_copy ?h2 us = Some (us', ?h2 @ new3)"
    "length ?h2 \<le> us'" "us' < length (?h2 @ new3)"
    "deref (?h2 @ new3) us' = Some (ArrayObj bs')"
    "\<forall>b \<in> set bs'. length ?h2 \<le> b \<and> b < length (?h2 @ new3)"
    "map (deref (?h2 @ new3)) bs' = map (deref ?h2) uas" by blast
  let ?h3 = "?h2 @ new3"
  let ?ob = "StateObj c sv ch (length h) cs' us'"
  let ?h' = "?h3 @ [?ob]"
  let ?s = "length ?h3"
  have snap: "snapshot_h h a = Some (?s, ?h')"
    using p(1) c1 c2(1) c3(1) by (simp add: snapshot_h_def alloc_def)
  have ds: "deref ?h' ?s = Some ?ob" using deref_new[of ?h3 ?ob "[]"] by simp
  have dm: "deref ?h' (length h) = Some (MeObj (me v))"
    using deref_new[of h "MeObj (me v)" "new2 @ new3 @ [?ob]"] by simp
  have dcs: "deref ?h' cs' = Some (ArrayObj bs)"
  proof -
    have "deref ((?h2 @ new3) @ [?ob]) cs' = deref ?h2 cs'"
      using c2(3) deref_append[of cs' ?h2 "new3 @ [?ob]"] by simp
    with c2(4) show ?thesis by simp
  qed
  have dus: "deref ?h' us' = Some (ArrayObj bs')"
    using c3(3,4) deref_append[of us' ?h3 "[?ob]"] by simp
  have mbs: "map (deref ?h') bs = map (deref h) cas"
  proof -
    have b2: "\<forall>b \<in> set bs. b < length ?h2" using c2(5) by simp
    have "map (deref ?h') bs = map (deref (?h2 @ (new3 @ [?ob]))) bs" by (simp only: append_assoc)
    also have "\<dots> = map (deref ?h2) bs" using b2 by (rule map_deref_append)
    also have "\<dots> = map (deref ?h1) cas" by (rule c2(6))
    also have "\<dots> = map (deref h) cas" using lt(4) by (rule map_deref_append)
    finally show ?thesis .
  qed
  have mbs': "map (deref ?h') bs' = map (deref h) uas"
  proof -
    have b3: "\<forall>b \<in> set bs'. b < length ?h3" using c3(5) by simp
    have "map (deref ?h') bs' = map (deref ?h3) bs'" using b3 by (rule map_deref_append)
    also have "\<dots> = map (deref ?h2) uas" by (rule c3(6))
    also have "\<dots> = map (deref (h @ ([MeObj (me v)] @ new2))) uas" by (simp only: append_assoc)
    also have "\<dots> = map (deref h) uas" using lt(5) by (rule map_deref_append)
    finally show ?thesis .
  qed
  have rc: "read_channels ?h' cs' = Some (channels v)"
    using dcs those_deref_cong(1)[OF mbs] p(4) by (simp add: read_channels_def the_array_def)
  have ru: "read_users ?h' us' = Some (users v)"
    using dus those_deref_cong(2)[OF mbs'] p(6) by (simp add: read_users_def the_array_def)
  have rd: "read_state ?h' ?s = Some v"
    using ds dm rc ru p(7,8,9) by (simp add: read_state_def the_me_def)
  have re: "reach ?h' ?s = ?s # length h # cs' # us' # bs @ bs'"
    using ds dcs dus by (simp add: reach_def elems_def the_array_def)
  have fresh: "\<forall>x \<in> set (reach ?h' ?s). length h \<le> x \<and> x < length ?h'"
    unfolding re using c2(2,3,5) c3(2,3,5) by auto
  have "?h' = h @ (MeObj (me v) # new2 @ new3 @ [?ob])" by simp
  with snap rd fresh show ?thesis by metis
qed

lemma initial_heap_read: "read_state initial_heap 9 = Some initialState"
  by code_simp

lemma snap_heap_eq: "snapshot_h initial_heap 9 = Some (19, snap_heap)"
  by code_simp

lemma snap_heap_facts:
  "length snap_heap = 20" "10 \<in> set (reach snap_heap 19)"
  "read_state mutated_heap 19 = Some (initialState\<lparr>me := \<lparr>muted = True, deafened = True\<rparr>\<rparr>)"
  by code_simp+

lemma deref_extend: "deref h x = Some ob \<Longrightarrow> deref (h @ new) x = Some ob"
  by (auto simp: deref_def nth_append split: if_splits)

text \<open>
  One \<^verbatim>\<open>snapshot()\<close>: the new graph reads as the state, is made of new objects only,
  and nothing that existed is written; whatever is written to its objects afterwards,
  the state and every graph that existed read as before; and whatever happens to other
  objects, the graph keeps its value.
\<close>

lemma snapshot_h_copy:
  assumes "read_state h a = Some v"
  shows "\<exists>s h'. snapshot_h h a = Some (s, h')
     \<and> read_state h' s = Some (snapshot v)
     \<and> length h \<le> length h' \<and> take (length h) h' = h
     \<and> read_state h' a = Some v
     \<and> (\<forall>x \<in> set (reach h' s). length h \<le> x \<and> x < length h' \<and> x \<notin> set (reach h a))
     \<and> (\<forall>s0 v0. read_state h s0 = Some v0 \<longrightarrow>
           (\<forall>x \<in> set (reach h' s). x \<notin> set (reach h s0)))
     \<and> (\<forall>h''. length h'' = length h'
           \<and> (\<forall>x < length h'. x \<notin> set (reach h' s) \<longrightarrow> h'' ! x = h' ! x) \<longrightarrow>
           read_state h'' a = Some v
           \<and> (\<forall>s0 v0. read_state h s0 = Some v0 \<longrightarrow> read_state h'' s0 = Some v0)
           \<and> (\<exists>s2 h2. snapshot_h h'' a = Some (s2, h2) \<and> read_state h2 s2 = Some (snapshot v)))
     \<and> (\<forall>h''. length h' \<le> length h'' \<and> (\<forall>x \<in> set (reach h' s). h'' ! x = h' ! x) \<longrightarrow>
           read_state h'' s = Some (snapshot v))"
proof -
  from snapshot_h_spec[OF assms] obtain s new where
    sn: "snapshot_h h a = Some (s, h @ new)"
    and rd: "read_state (h @ new) s = Some v"
    and fr: "\<forall>x \<in> set (reach (h @ new) s). length h \<le> x \<and> x < length (h @ new)" by blast
  let ?h' = "h @ new"
  have old: "read_state ?h' s0 = Some v0" if "read_state h s0 = Some v0" for s0 v0
  proof (rule read_state_frame[OF that])
    show "length h \<le> length ?h'" by simp
    show "\<forall>x \<in> set (reach h s0). ?h' ! x = h ! x"
      using reach_less[OF that] by (simp add: nth_append)
  qed
  have disj: "x \<notin> set (reach h s0)" if "read_state h s0 = Some v0" "x \<in> set (reach ?h' s)"
    for s0 v0 x
    using reach_less[OF that(1), of x] fr that(2) by auto
  have mut: "read_state h'' s0 = Some v0"
    if h'': "length h'' = length ?h'"
      "\<forall>x < length ?h'. x \<notin> set (reach ?h' s) \<longrightarrow> h'' ! x = ?h' ! x"
      and r0: "read_state h s0 = Some v0" for h'' s0 v0
  proof (rule read_state_frame[OF old[OF r0]])
    show "length ?h' \<le> length h''" using h''(1) by simp
    show "\<forall>x \<in> set (reach ?h' s0). h'' ! x = ?h' ! x"
    proof
      fix x assume x: "x \<in> set (reach ?h' s0)"
      from reach_less[OF old[OF r0] x] have xl: "x < length ?h'" .
      have "reach ?h' s0 = reach h s0"
      proof -
        from r0 obtain c sv ch m cs us cas uas where p:
          "deref h s0 = Some (StateObj c sv ch m cs us)"
          "deref h cs = Some (ArrayObj cas)" "deref h us = Some (ArrayObj uas)"
          "reach h s0 = s0 # m # cs # us # cas @ uas"
          by (rule read_state_parts)
        then have "deref ?h' s0 = Some (StateObj c sv ch m cs us)"
          "deref ?h' cs = Some (ArrayObj cas)" "deref ?h' us = Some (ArrayObj uas)"
          by (simp_all add: deref_extend)
        with p(4) show ?thesis by (simp add: reach_def elems_def the_array_def)
      qed
      with x have "x \<in> set (reach h s0)" by simp
      with disj[OF r0] have "x \<notin> set (reach ?h' s)" by blast
      with h''(2) xl show "h'' ! x = ?h' ! x" by simp
    qed
  qed
  show ?thesis
  proof (rule exI[of _ s], rule exI[of _ ?h'], intro conjI allI impI ballI)
    show "snapshot_h h a = Some (s, ?h')" by (rule sn)
    show "read_state ?h' s = Some (snapshot v)" using rd by simp
    show "length h \<le> length ?h'" "take (length h) ?h' = h" by simp_all
    show "read_state ?h' a = Some v" by (rule old[OF assms])
  next
    fix x assume x: "x \<in> set (reach ?h' s)"
    with fr show "length h \<le> x" "x < length ?h'" by simp_all
    from disj[OF assms x] show "x \<notin> set (reach h a)" .
  next
    fix s0 v0 x assume "read_state h s0 = Some v0" "x \<in> set (reach ?h' s)"
    then show "x \<notin> set (reach h s0)" by (rule disj)
  next
    fix h''
    assume a: "length h'' = length ?h'
           \<and> (\<forall>x < length ?h'. x \<notin> set (reach ?h' s) \<longrightarrow> h'' ! x = ?h' ! x)"
    then have h'': "length h'' = length ?h'"
      "\<forall>x < length ?h'. x \<notin> set (reach ?h' s) \<longrightarrow> h'' ! x = ?h' ! x" by simp_all
    show ra: "read_state h'' a = Some v" by (rule mut[OF h'' assms])
    from snapshot_h_spec[OF ra]
    show "\<exists>s2 h2. snapshot_h h'' a = Some (s2, h2) \<and> read_state h2 s2 = Some (snapshot v)"
      by auto
    fix s0 v0 assume "read_state h s0 = Some v0"
    then show "read_state h'' s0 = Some v0" by (rule mut[OF h''])
  next
    fix h''
    assume "length ?h' \<le> length h'' \<and> (\<forall>x \<in> set (reach ?h' s). h'' ! x = ?h' ! x)"
    then have "read_state h'' s = Some v" using read_state_frame[OF rd] by blast
    then show "read_state h'' s = Some (snapshot v)" by simp
  qed
qed


subsection \<open>The current channel is always present\<close>

lemma exec_channel:
  assumes ok: "timers_ok w" and e: "exec n cbs c w = Some w'"
    and ch: "currentChannelId (state w) \<noteq> None"
  shows "currentChannelId (state w') \<noteq> None"
proof (cases c)
  case (CSubscribe l)
  with e subscribe_result(1)[of n cbs l w w'] ch show ?thesis by simp
next
  case (CUnsubscribe l)
  with e ch show ?thesis by (auto simp: unsubscribe_def)
next
  case CGetState
  with e ch show ?thesis by auto
next
  case (CConnect p)
  with e have c: "connect n cbs p w = Some w'" by simp
  show ?thesis
  proof (cases "connState (state w) = Connected")
    case True
    with c ch show ?thesis by (simp add: connect_def)
  next
    case False
    from connect_result(1)[OF ok False c] ch show ?thesis by simp
  qed
next
  case CDisconnect
  with e have "disconnect n cbs w = Some w'" by simp
  from disconnect_result(1)[OF ok this] ch show ?thesis by simp
next
  case (CJoinChannel x)
  with e have "joinChannel n cbs x w = Some w'" by simp
  from joinChannel_result(1)[OF this] show ?thesis by simp
next
  case (CSetMute b)
  with e have "updateMe n cbs (\<lambda>m. m\<lparr>muted := b\<rparr>) w = Some w'" by (simp add: setMute_def)
  from updateMe_result(1)[OF this] ch show ?thesis by simp
next
  case (CSetDeafen b)
  with e have "updateMe n cbs (\<lambda>m. m\<lparr>deafened := b\<rparr>) w = Some w'" by (simp add: setDeafen_def)
  from updateMe_result(1)[OF this] ch show ?thesis by simp
next
  case (CAdvance dt)
  with e have a: "advance n cbs dt w = Some w'" by simp
  from ok show ?thesis
  proof (rule timers_ok_cases)
    assume "timers w = []"
    with a ch show ?thesis by (auto simp: advance_no_timer)
  next
    fix h d
    assume t: "timers w = [(h, d)]"
    show ?thesis
    proof (cases "d \<le> now w + dt")
      case False
      with a t ch show ?thesis by (auto simp: advance_early)
    next
      case True
      from advance_fire_result(1)[OF t True a] ch show ?thesis by simp
    qed
  qed
qed

lemma execs_channel:
  "timers_ok w \<Longrightarrow> currentChannelId (state w) \<noteq> None \<Longrightarrow>
   \<forall>e \<in> set (log w). currentChannelId (snd (snd e)) \<noteq> None \<Longrightarrow>
   execs cbs cs w = Some w' \<Longrightarrow>
   currentChannelId (state w') \<noteq> None \<and> (\<forall>e \<in> set (log w'). currentChannelId (snd (snd e)) \<noteq> None)"
proof (induction cs arbitrary: w)
  case Nil
  then show ?case by simp
next
  case (Cons c cs)
  from Cons.prems(4) obtain w1 where e1: "exec (fst c) cbs (snd c) w = Some w1"
    and e2: "execs cbs cs w1 = Some w'" by (auto split: option.splits)
  note s = exec_step[OF Cons.prems(1) e1]
  note c1 = exec_channel[OF Cons.prems(1) e1 Cons.prems(2)]
  have "\<forall>e \<in> set (log w1). currentChannelId (snd (snd e)) \<noteq> None"
  proof
    fix e assume "e \<in> set (log w1)"
    with s have "e \<in> set (log w) \<or> e \<in> set (emitted w w1)" by (metis Un_iff set_append)
    then show "currentChannelId (snd (snd e)) \<noteq> None" using Cons.prems(3) s c1 by auto
  qed
  from Cons.IH[OF _ c1 this e2] s show ?case by blast
qed

lemma round_trip_run:
  "execs observers
     [(Suc 0, CSubscribe 7),
      (Suc (Suc 0), CConnect \<lparr>server = ''s'', username = None\<rparr>),
      (Suc (Suc 0), CAdvance 400), (Suc (Suc 0), CJoinChannel 3),
      (Suc (Suc 0), CDisconnect)] createMockTransport
   = Some round_trip"
  by (simp add: round_trip_def observers_def createMockTransport_def connect_def disconnect_def
      joinChannel_def update_def set_add_def Let_def setTimeout_def clearTimeout_def truthy_def
      advance_def connectCompletion_def initialState_def)

lemma round_trip_facts:
  "connState (state round_trip) = Disconnected" "length (log round_trip) = 5"
  by (simp_all add: round_trip_def observers_def createMockTransport_def connect_def disconnect_def
      joinChannel_def update_def set_add_def Let_def setTimeout_def clearTimeout_def truthy_def
      advance_def connectCompletion_def initialState_def)

section \<open>The mock's initial state\<close>

text \<open>
  C10. Right after \<^verbatim>\<open>createMockTransport()\<close>, \<^verbatim>\<open>getState()\<close> returns connState
  "disconnected", no current server, \<open>me = {muted: false, deafened: false}\<close>, the three
  seeded channels with ids 1, 2, 3, the three seeded users with the self user (id 1) in
  channel 1, and a current channel id that is present and equal to 1. The absent
  current channel never occurs: in every world a run of the mock reaches, whatever the
  commands and the callbacks, \<^verbatim>\<open>getState()\<close> has a current channel id, and so has
  every snapshot delivered to a listener.
\<close>

theorem initial_getState:
  "getState createMockTransport =
     \<lparr>connState = Disconnected, currentServer = None, currentChannelId = Some 1,
      me = \<lparr>muted = False, deafened = False\<rparr>,
      channels =
        [\<lparr>id_ch = 1, name_ch = ''Lobby'', parentId = None\<rparr>,
         \<lparr>id_ch = 2, name_ch = ''Gaming'', parentId = None\<rparr>,
         \<lparr>id_ch = 3, name_ch = ''AFK'', parentId = None\<rparr>],
      users =
        [\<lparr>id_u = 1, name_u = ''You'', channelId = 1, talking = None,
          muted_u = None, deafened_u = None\<rparr>,
         \<lparr>id_u = 2, name_u = ''Alex'', channelId = 1, talking = Some True,
          muted_u = None, deafened_u = None\<rparr>,
         \<lparr>id_u = 3, name_u = ''Sam'', channelId = 2, talking = None,
          muted_u = None, deafened_u = None\<rparr>]\<rparr>
   \<and> connState (getState createMockTransport) = Disconnected
   \<and> currentChannelId (getState createMockTransport) = Some 1
   \<and> map id_ch (channels (getState createMockTransport)) = [1, 2, 3]
   \<and> map (\<lambda>u. (id_u u, channelId u)) (users (getState createMockTransport))
       = [(1, 1), (2, 1), (3, 2)]
   \<and> listeners createMockTransport = [] \<and> timers createMockTransport = []
   \<and> (\<forall>cbs cs w. execs cbs cs createMockTransport = Some w \<longrightarrow>
         currentChannelId (getState w) \<noteq> None
         \<and> (\<forall>e \<in> set (log w). currentChannelId (snd (snd e)) \<noteq> None))"
proof -
  have inv: "currentChannelId (getState w) \<noteq> None
         \<and> (\<forall>e \<in> set (log w). currentChannelId (snd (snd e)) \<noteq> None)"
    if "execs cbs cs createMockTransport = Some w" for cbs cs w
  proof -
    have "currentChannelId (state createMockTransport) \<noteq> None"
      "\<forall>e \<in> set (log createMockTransport). currentChannelId (snd (snd e)) \<noteq> None"
      by (simp_all add: createMockTransport_def initialState_def)
    from execs_channel[OF timers_ok_initial this that] show ?thesis by simp
  qed
  have "getState createMockTransport = initialState"
    by (simp add: createMockTransport_def)
  then show ?thesis
    using inv by (simp add: createMockTransport_def initialState_def defaultChannels_def
        defaultUsers_def)
qed

theorem initial_getState_witness:
  "execs observers
     [(Suc 0, CSubscribe 7),
      (Suc (Suc 0), CConnect \<lparr>server = ''s'', username = None\<rparr>),
      (Suc (Suc 0), CAdvance 400), (Suc (Suc 0), CJoinChannel 3),
      (Suc (Suc 0), CDisconnect)] createMockTransport
   = Some round_trip
   \<and> connState (getState round_trip) = Disconnected
   \<and> currentChannelId (getState round_trip) \<noteq> None
   \<and> length (log round_trip) = 5
   \<and> list_all (\<lambda>e. currentChannelId (snd (snd e)) \<noteq> None) (log round_trip)"
proof -
  have "\<forall>cbs cs w. execs cbs cs createMockTransport = Some w \<longrightarrow>
         currentChannelId (getState w) \<noteq> None
         \<and> (\<forall>e \<in> set (log w). currentChannelId (snd (snd e)) \<noteq> None)"
    using initial_getState by blast
  with round_trip_run have "currentChannelId (getState round_trip) \<noteq> None
      \<and> (\<forall>e \<in> set (log round_trip). currentChannelId (snd (snd e)) \<noteq> None)" by blast
  with round_trip_run round_trip_facts show ?thesis by (simp add: list_all_iff)
qed

subsection \<open>Runs without connect and disconnect\<close>

lemma exec_frame:
  assumes ok: "timers_ok w" and nc: "\<not> is_connect c" and nd: "\<not> is_disconnect c"
    and e: "exec n cbs c w = Some w'"
  shows "currentServer (state w') = currentServer (state w)"
    "now w' = now w + elapsed1 c"
    "\<forall>t \<in> set (timers w). now w' < snd t \<Longrightarrow>
       timers w' = timers w \<and> connState (state w') = connState (state w)"
    "\<exists>t \<in> set (timers w). now w < snd t \<and> snd t \<le> now w' \<Longrightarrow>
       timers w' = [] \<and> connState (state w') = Connected"
proof -
  have "currentServer (state w') = currentServer (state w)
     \<and> now w' = now w + elapsed1 c
     \<and> ((\<forall>t \<in> set (timers w). now w' < snd t) \<longrightarrow>
           timers w' = timers w \<and> connState (state w') = connState (state w))
     \<and> ((\<exists>t \<in> set (timers w). now w < snd t \<and> snd t \<le> now w') \<longrightarrow>
           timers w' = [] \<and> connState (state w') = Connected)"
  proof (cases c)
    case (CSubscribe l)
    with e have s: "subscribe n cbs l w = Some w'" by simp
    from delivers_aux(3)[OF s] have "same_core w w'" by (simp add: delivers_def)
    with CSubscribe show ?thesis by (auto simp: same_core_def)
  next
    case (CUnsubscribe l)
    with e show ?thesis by (auto simp: unsubscribe_def)
  next
    case CGetState
    with e show ?thesis by auto
  next
    case (CConnect p)
    with nc show ?thesis by simp
  next
    case CDisconnect
    with nd show ?thesis by simp
  next
    case (CJoinChannel x)
    with e have "joinChannel n cbs x w = Some w'" by simp
    from joinChannel_result[OF this] CJoinChannel show ?thesis by auto
  next
    case (CSetMute b)
    with e have "updateMe n cbs (\<lambda>m. m\<lparr>muted := b\<rparr>) w = Some w'" by (simp add: setMute_def)
    from updateMe_result[OF this] CSetMute show ?thesis by auto
  next
    case (CSetDeafen b)
    with e have "updateMe n cbs (\<lambda>m. m\<lparr>deafened := b\<rparr>) w = Some w'" by (simp add: setDeafen_def)
    from updateMe_result[OF this] CSetDeafen show ?thesis by auto
  next
    case (CAdvance dt)
    with e have a: "advance n cbs dt w = Some w'" by simp
    from ok show ?thesis
    proof (rule timers_ok_cases)
      assume "timers w = []"
      with a CAdvance show ?thesis by (auto simp: advance_no_timer)
    next
      fix h d
      assume t: "timers w = [(h, d)]"
      show ?thesis
      proof (cases "d \<le> now w + dt")
        case False
        with a t have "w' = w\<lparr>now := now w + dt\<rparr>" by (simp add: advance_early)
        with False t CAdvance show ?thesis by simp
      next
        case True
        note r = advance_fire_result[OF t True a]
        with True t CAdvance show ?thesis by simp
      qed
    qed
  qed
  then show "currentServer (state w') = currentServer (state w)"
    "now w' = now w + elapsed1 c"
    "\<forall>t \<in> set (timers w). now w' < snd t \<Longrightarrow>
       timers w' = timers w \<and> connState (state w') = connState (state w)"
    "\<exists>t \<in> set (timers w). now w < snd t \<and> snd t \<le> now w' \<Longrightarrow>
       timers w' = [] \<and> connState (state w') = Connected"
    by blast+
qed

lemma all_show_Nil [simp]: "all_show c s []" by (simp add: all_show_def)

lemma all_show_append [simp]: "all_show c s (xs @ ys) = (all_show c s xs \<and> all_show c s ys)"
  by (simp add: all_show_def)

lemma all_show_state:
  "\<forall>e \<in> set es. snd (snd e) = st \<Longrightarrow> connState st = c \<Longrightarrow> currentServer st = Some s \<Longrightarrow>
   all_show c s es"
  by (simp add: all_show_def list_all_iff)

lemma exec_pending:
  assumes p: "pending_until s D w" and nc: "\<not> is_connect c" and nd: "\<not> is_disconnect c"
    and e: "exec n cbs c w = Some w'"
  shows "now w' = now w + elapsed1 c" "log w' = log w @ emitted w w'"
    "now w' < D \<Longrightarrow> pending_until s D w' \<and> all_show Connecting s (emitted w w')"
    "D \<le> now w' \<Longrightarrow> settled s w' \<and> all_show Connected s (emitted w w')"
proof -
  from p have ok: "timers_ok w" and t: "map snd (timers w) = [D]"
    and st: "connState (state w) = Connecting" "currentServer (state w) = Some s"
    by (simp_all add: pending_until_def)
  note f = exec_frame[OF ok nc nd e]
  note x = exec_step[OF ok e]
  from t have ts: "\<forall>t \<in> set (timers w). snd t = D" "timers w \<noteq> []"
    by (auto simp: map_eq_Cons_conv)
  show "now w' = now w + elapsed1 c" by (rule f(2))
  show "log w' = log w @ emitted w w'" using x by blast
  show "pending_until s D w' \<and> all_show Connecting s (emitted w w')" if "now w' < D"
  proof -
    from that ts(1) have "\<forall>t \<in> set (timers w). now w' < snd t" by simp
    from f(3)[OF this] have k: "timers w' = timers w" "connState (state w') = Connecting"
      using st by simp_all
    with x t that f(1) st have "pending_until s D w'" by (simp add: pending_until_def)
    moreover have "all_show Connecting s (emitted w w')"
      by (rule all_show_state[of _ "state w'"]) (use x k f(1) st in auto)
    ultimately show ?thesis by blast
  qed
  show "settled s w' \<and> all_show Connected s (emitted w w')" if "D \<le> now w'"
  proof -
    from p have "now w < D" by (simp add: pending_until_def)
    with that ts have "\<exists>t \<in> set (timers w). now w < snd t \<and> snd t \<le> now w'"
      by (cases "timers w") auto
    from f(4)[OF this] have k: "timers w' = []" "connState (state w') = Connected" by simp_all
    from x have "nextHandle w' \<noteq> 0" by (simp add: timers_ok_def)
    with k f(1) st have "settled s w'" by (simp add: settled_def)
    moreover have "all_show Connected s (emitted w w')"
      by (rule all_show_state[of _ "state w'"]) (use x k f(1) st in auto)
    ultimately show ?thesis by blast
  qed
qed

lemma settled_timers_ok: "settled s w \<Longrightarrow> timers_ok w"
  by (simp add: settled_def timers_ok_def)

lemma exec_settled:
  assumes p: "settled s w" and nd: "\<not> is_disconnect c" and e: "exec n cbs c w = Some w'"
  shows "settled s w'" "log w' = log w @ emitted w w'" "all_show Connected s (emitted w w')"
    "now w' = now w + elapsed1 c"
proof -
  note ok = settled_timers_ok[OF p]
  note x = exec_step[OF ok e]
  have k: "settled s w' \<and> now w' = now w + elapsed1 c"
  proof (cases "is_connect c")
    case True
    then obtain q where "c = CConnect q" by (cases c) auto
    with e p have "w' = w" by (simp add: connect_def settled_def)
    with p True \<open>c = CConnect q\<close> show ?thesis by simp
  next
    case False
    note f = exec_frame[OF ok False nd e]
    from p have "\<forall>t \<in> set (timers w). now w' < snd t" by (simp add: settled_def)
    from f(3)[OF this] f(1,2) p x show ?thesis by (simp add: settled_def timers_ok_def)
  qed
  then show "settled s w'" "now w' = now w + elapsed1 c" by simp_all
  show "log w' = log w @ emitted w w'" using x by blast
  show "all_show Connected s (emitted w w')"
    by (rule all_show_state[of _ "state w'"]) (use x k in \<open>auto simp: settled_def\<close>)
qed

lemma elapsed_simps [simp]:
  "elapsed [] = 0" "elapsed (c # cs) = elapsed1 (snd c) + elapsed cs"
  by (simp_all add: elapsed_def)

lemma execs_settled:
  "settled s w \<Longrightarrow> \<forall>c \<in> set cs. \<not> is_disconnect (snd c) \<Longrightarrow> execs cbs cs w = Some w' \<Longrightarrow>
   settled s w' \<and> log w' = log w @ emitted w w' \<and> all_show Connected s (emitted w w')
   \<and> now w' = now w + elapsed cs"
proof (induction cs arbitrary: w)
  case Nil
  then show ?case by simp
next
  case (Cons c cs)
  from Cons.prems(3) obtain w1 where e1: "exec (fst c) cbs (snd c) w = Some w1"
    and e2: "execs cbs cs w1 = Some w'" by (auto split: option.splits)
  from Cons.prems(2) have nd: "\<not> is_disconnect (snd c)"
    and nds: "\<forall>c \<in> set cs. \<not> is_disconnect (snd c)" by simp_all
  note s1 = exec_settled[OF Cons.prems(1) nd e1]
  from Cons.IH[OF s1(1) nds e2] have s2: "settled s w'" "log w' = log w1 @ emitted w1 w'"
    "all_show Connected s (emitted w1 w')" "now w' = now w1 + elapsed cs" by simp_all
  have et: "emitted w w' = emitted w w1 @ emitted w1 w'"
    using s1(2) s2(2) by (rule emitted_trans)
  have "log w' = log w @ emitted w w'" using s1(2) s2(2) et by (metis append_assoc)
  with s1 s2 et show ?case by simp
qed

lemma execs_pending:
  "pending_until s D w \<Longrightarrow> \<forall>c \<in> set cs. \<not> is_connect (snd c) \<and> \<not> is_disconnect (snd c) \<Longrightarrow>
   execs cbs cs w = Some w' \<Longrightarrow>
   now w' = now w + elapsed cs \<and> log w' = log w @ emitted w w'
   \<and> (now w' < D \<longrightarrow> pending_until s D w' \<and> all_show Connecting s (emitted w w'))
   \<and> (D \<le> now w' \<longrightarrow> settled s w')"
proof (induction cs arbitrary: w)
  case Nil
  then show ?case by (simp add: pending_until_def)
next
  case (Cons c cs)
  from Cons.prems(3) obtain w1 where e1: "exec (fst c) cbs (snd c) w = Some w1"
    and e2: "execs cbs cs w1 = Some w'" by (auto split: option.splits)
  from Cons.prems(2) have nc: "\<not> is_connect (snd c)" and nd: "\<not> is_disconnect (snd c)"
    and ncs: "\<forall>c \<in> set cs. \<not> is_connect (snd c) \<and> \<not> is_disconnect (snd c)"
    and nds: "\<forall>c \<in> set cs. \<not> is_disconnect (snd c)" by simp_all
  note s1 = exec_pending[OF Cons.prems(1) nc nd e1]
  show ?case
  proof (cases "now w1 < D")
    case True
    from s1(3)[OF True] have p1: "pending_until s D w1"
      and a1: "all_show Connecting s (emitted w w1)" by simp_all
    from Cons.IH[OF p1 ncs e2] have s2: "now w' = now w1 + elapsed cs"
      "log w' = log w1 @ emitted w1 w'"
      "now w' < D \<longrightarrow> pending_until s D w' \<and> all_show Connecting s (emitted w1 w')"
      "D \<le> now w' \<longrightarrow> settled s w'" by simp_all
    have et: "emitted w w' = emitted w w1 @ emitted w1 w'"
      using s1(2) s2(2) by (rule emitted_trans)
    have "log w' = log w @ emitted w w'" using s1(2) s2(2) et by (metis append_assoc)
    with s1(1) s2 a1 et show ?thesis by simp
  next
    case False
    then have "D \<le> now w1" by simp
    from s1(4)[OF this] have p1: "settled s w1" by simp
    from execs_settled[OF p1 nds e2] have s2: "settled s w'" "log w' = log w1 @ emitted w1 w'"
      "now w' = now w1 + elapsed cs" by simp_all
    have et: "emitted w w' = emitted w w1 @ emitted w1 w'"
      using s1(2) s2(2) by (rule emitted_trans)
    have "log w' = log w @ emitted w w'" using s1(2) s2(2) et by (metis append_assoc)
    with s1(1) s2 False show ?thesis by simp
  qed
qed

lemma connect_pending:
  assumes ok: "timers_ok w" and nc: "connState (state w) \<noteq> Connected"
    and c: "connect n cbs p w = Some w1"
  shows "pending_until (server p) (now w1 + 400) w1"
proof -
  note r = connect_result[OF ok nc c]
  from exec_step[OF ok, of n cbs "CConnect p" w1] c have "timers_ok w1" by simp
  with r show ?thesis by (simp add: pending_until_def)
qed

lemma pending_until_timer:
  assumes "pending_until s D w"
  obtains h where "timers w = [(h, D)]"
  using assms by (cases "timers w") (auto simp: pending_until_def)

lemma connecting_world_eq:
  "connecting_world =
     \<lparr>state = initialState\<lparr>connState := Connecting, currentServer := Some ''s''\<rparr>,
      listeners = [Some 7, Some 8], connectTimer = Some 1, timers = [(1, 400)], now = 0,
      nextHandle = 2, store = None,
      log = [(7, OnSubscribe, initialState), (8, OnSubscribe, initialState),
             (7, OnUpdate, initialState\<lparr>connState := Connecting, currentServer := Some ''s''\<rparr>),
             (8, OnUpdate, initialState\<lparr>connState := Connecting, currentServer := Some ''s''\<rparr>)]\<rparr>"
  by (simp add: connecting_world_def connect_def update_passive passive_observers
      two_observers_eq createMockTransport_def Let_def setTimeout_def truthy_def initialState_def)

lemma connecting_world_run:
  "connect 3 observers \<lparr>server = ''s'', username = None\<rparr> two_observers = Some connecting_world"
  unfolding connecting_world_eq
  by (simp add: connect_def update_passive passive_observers
      two_observers_eq createMockTransport_def Let_def setTimeout_def truthy_def initialState_def)

lemma connecting_world_later:
  "\<exists>w2. execs observers [(3, CAdvance 200), (3, CJoinChannel 2), (3, CAdvance 199)]
           connecting_world = Some w2 \<and> listeners w2 = [Some 7, Some 8]"
  unfolding connecting_world_eq
  by (simp add: advance_def joinChannel_def update_passive passive_observers Let_def)

section \<open>The connect sequence\<close>

text \<open>
  C2. From every state whose connState is not "connected" (and whose timers are those the
  transport itself set), when \<^verbatim>\<open>connect({server: s})\<close> returns the visible state has
  connState "connecting" and current server \<open>s\<close>. While less than the latency of 400 has
  passed nothing is emitted and the state stays as it is; once the latency has passed,
  with no command in between, the state is that state with connState "connected", so the
  current server is still \<open>s\<close>, and every snapshot emitted meanwhile is that state. With
  listeners that only observe, \<^verbatim>\<open>connect\<close> returns, and the completion delivers exactly
  one such snapshot to each listener.

  The same holds through any commands in between other than \<^verbatim>\<open>connect\<close> and
  \<^verbatim>\<open>disconnect\<close>, with time passing in any number of steps. While the time passed in
  the run is below 400, the state is "connecting" with server \<open>s\<close>, and so is every
  snapshot emitted in the run. Once it has reached 400, the state is "connected" with
  server \<open>s\<close>, and so is every snapshot that any next command emits. The step of time
  in which the latency elapses emits "connected" snapshots with server \<open>s\<close> only, with
  observing listeners exactly one to each listener.
\<close>

theorem connect_sequence:
  assumes "timers_ok w" and "connState (state w) \<noteq> Connected"
  shows "(\<forall>w1. connect n cbs p w = Some w1 \<longrightarrow>
            connState (getState w1) = Connecting
            \<and> currentServer (getState w1) = Some (server p)
            \<and> (\<forall>m dt w2. dt < 400 \<and> advance m cbs dt w1 = Some w2 \<longrightarrow>
                  getState w2 = getState w1 \<and> emitted w1 w2 = [])
            \<and> (\<forall>m dt w2. 400 \<le> dt \<and> advance m cbs dt w1 = Some w2 \<longrightarrow>
                  getState w2 = (getState w1)\<lparr>connState := Connected\<rparr>
                  \<and> connState (getState w2) = Connected
                  \<and> currentServer (getState w2) = Some (server p)
                  \<and> (\<forall>e \<in> set (emitted w1 w2). snd (snd e) = getState w2))
            \<and> (\<forall>m dt. 400 \<le> dt \<and> passive_cbs cbs \<and> length (listeners w1) < m \<longrightarrow>
                  (\<exists>w2. advance m cbs dt w1 = Some w2
                     \<and> emitted w1 w2 = map (\<lambda>l. (l, OnUpdate, getState w2)) (live (listeners w1))))
            \<and> (\<forall>cs w2. (\<forall>c \<in> set cs. \<not> is_connect (snd c) \<and> \<not> is_disconnect (snd c))
                  \<and> execs cbs cs w1 = Some w2 \<longrightarrow>
                  (elapsed cs < 400 \<longrightarrow>
                     connState (getState w2) = Connecting
                     \<and> currentServer (getState w2) = Some (server p)
                     \<and> all_show Connecting (server p) (emitted w1 w2))
                  \<and> (400 \<le> elapsed cs \<longrightarrow>
                     connState (getState w2) = Connected
                     \<and> currentServer (getState w2) = Some (server p)
                     \<and> (\<forall>c w3. \<not> is_disconnect (snd c)
                            \<and> exec (fst c) cbs (snd c) w2 = Some w3 \<longrightarrow>
                            all_show Connected (server p) (emitted w2 w3)))
                  \<and> (\<forall>m dt w3. elapsed cs < 400 \<and> 400 \<le> elapsed cs + dt
                        \<and> advance m cbs dt w2 = Some w3 \<longrightarrow>
                        connState (getState w3) = Connected
                        \<and> currentServer (getState w3) = Some (server p)
                        \<and> all_show Connected (server p) (emitted w2 w3))
                  \<and> (\<forall>m dt. elapsed cs < 400 \<and> 400 \<le> elapsed cs + dt
                        \<and> passive_cbs cbs \<and> length (listeners w2) < m \<longrightarrow>
                        (\<exists>w3. advance m cbs dt w2 = Some w3
                           \<and> emitted w2 w3
                               = map (\<lambda>l. (l, OnUpdate, getState w3)) (live (listeners w2))))))
         \<and> (passive_cbs cbs \<and> length (listeners w) < n \<longrightarrow>
              (\<exists>w1. connect n cbs p w = Some w1))"
proof (intro conjI allI impI)
  fix w1
  assume c: "connect n cbs p w = Some w1"
  note r = connect_result[OF assms c]
  show "connState (getState w1) = Connecting" "currentServer (getState w1) = Some (server p)"
    using r(1) by simp_all
  have t: "timers w1 = [(nextHandle w, now w1 + 400)]" using r(2,5) by simp
  note pend = connect_pending[OF assms c]
  {
    fix m w2 and dt :: nat
    assume a: "dt < 400 \<and> advance m cbs dt w1 = Some w2"
    then have "w2 = w1\<lparr>now := now w1 + dt\<rparr>" using advance_early[OF t, of dt m cbs] by simp
    then show "getState w2 = getState w1" "emitted w1 w2 = []" by simp_all
  }
  {
    fix m w2 and dt :: nat
    assume a: "400 \<le> dt \<and> advance m cbs dt w1 = Some w2"
    then have d: "now w1 + 400 \<le> now w1 + dt" and adv: "advance m cbs dt w1 = Some w2" by simp_all
    note f = advance_fire_result[OF t d adv]
    show "getState w2 = (getState w1)\<lparr>connState := Connected\<rparr>" using f(1) by simp
    then show "connState (getState w2) = Connected" "currentServer (getState w2) = Some (server p)"
      using r(1) by simp_all
    show "\<forall>e \<in> set (emitted w1 w2). snd (snd e) = getState w2" using f(7) by simp
  }
  {
    fix m and dt :: nat
    assume a: "400 \<le> dt \<and> passive_cbs cbs \<and> length (listeners w1) < m"
    then have d: "now w1 + 400 \<le> now w1 + dt" by simp
    from advance_fire_passive[OF t d, of cbs m] a
    show "\<exists>w2. advance m cbs dt w1 = Some w2
       \<and> emitted w1 w2 = map (\<lambda>l. (l, OnUpdate, getState w2)) (live (listeners w1))"
      by simp
  }
  fix cs w2
  assume run: "(\<forall>c \<in> set cs. \<not> is_connect (snd c) \<and> \<not> is_disconnect (snd c))
                  \<and> execs cbs cs w1 = Some w2"
  then have ncs: "\<forall>c \<in> set cs. \<not> is_connect (snd c) \<and> \<not> is_disconnect (snd c)"
    and ex: "execs cbs cs w1 = Some w2" by simp_all
  from execs_pending[OF pend ncs ex] have x: "now w2 = now w1 + elapsed cs"
    "now w2 < now w1 + 400 \<Longrightarrow>
       pending_until (server p) (now w1 + 400) w2 \<and> all_show Connecting (server p) (emitted w1 w2)"
    "now w1 + 400 \<le> now w2 \<Longrightarrow> settled (server p) w2" by simp_all
  {
    assume "elapsed cs < 400"
    then have "now w2 < now w1 + 400" using x(1) by simp
    from x(2)[OF this]
    show "connState (getState w2) = Connecting" "currentServer (getState w2) = Some (server p)"
      "all_show Connecting (server p) (emitted w1 w2)"
      by (simp_all add: pending_until_def)
  }
  {
    assume "400 \<le> elapsed cs"
    then have "now w1 + 400 \<le> now w2" using x(1) by simp
    note s = x(3)[OF this]
    then show "connState (getState w2) = Connected" "currentServer (getState w2) = Some (server p)"
      by (simp_all add: settled_def)
    fix c w3
    assume "\<not> is_disconnect (snd c) \<and> exec (fst c) cbs (snd c) w2 = Some w3"
    then show "all_show Connected (server p) (emitted w2 w3)"
      using exec_settled(3)[OF s] by blast
  }
  {
    fix m w3 and dt :: nat
    assume a: "elapsed cs < 400 \<and> 400 \<le> elapsed cs + dt \<and> advance m cbs dt w2 = Some w3"
    then have lt: "now w2 < now w1 + 400" using x(1) by simp
    note pw2 = x(2)[OF lt, THEN conjunct1]
    from a have e: "exec m cbs (CAdvance dt) w2 = Some w3" by simp
    note q = exec_pending[OF pw2 _ _ e]
    from q(1) a x(1) have "now w1 + 400 \<le> now w3" by simp
    from q(4)[OF _ _ this]
    show "connState (getState w3) = Connected" "currentServer (getState w3) = Some (server p)"
      "all_show Connected (server p) (emitted w2 w3)"
      by (simp_all add: settled_def)
  }
  {
    fix m and dt :: nat
    assume a: "elapsed cs < 400 \<and> 400 \<le> elapsed cs + dt
                        \<and> passive_cbs cbs \<and> length (listeners w2) < m"
    then have lt: "now w2 < now w1 + 400" using x(1) by simp
    note pw2 = x(2)[OF lt, THEN conjunct1]
    from pw2 obtain h where t2: "timers w2 = [(h, now w1 + 400)]" by (rule pending_until_timer)
    from a x(1) have d: "now w1 + 400 \<le> now w2 + dt" by simp
    from advance_fire_passive[OF t2 d, of cbs m] a
    show "\<exists>w3. advance m cbs dt w2 = Some w3
       \<and> emitted w2 w3 = map (\<lambda>l. (l, OnUpdate, getState w3)) (live (listeners w2))"
      by simp
  }
next
  assume "passive_cbs cbs \<and> length (listeners w) < n"
  then show "\<exists>w1. connect n cbs p w = Some w1" by (simp add: connect_passive)
qed

theorem connect_sequence_witness:
  "timers_ok two_observers \<and> connState (state two_observers) \<noteq> Connected
   \<and> connect 3 observers \<lparr>server = ''s'', username = None\<rparr> two_observers
       = Some connecting_world
   \<and> connState (getState connecting_world) = Connecting
   \<and> currentServer (getState connecting_world) = Some ''s''
   \<and> (\<exists>w2. advance 3 observers 400 connecting_world = Some w2
         \<and> connState (getState w2) = Connected \<and> currentServer (getState w2) = Some ''s''
         \<and> emitted connecting_world w2 = [(7, OnUpdate, getState w2), (8, OnUpdate, getState w2)])
   \<and> (\<exists>w2. execs observers [(3, CAdvance 200), (3, CJoinChannel 2), (3, CAdvance 199)]
              connecting_world = Some w2
         \<and> connState (getState w2) = Connecting \<and> currentServer (getState w2) = Some ''s''
         \<and> (\<exists>w3. advance 3 observers 1 w2 = Some w3
               \<and> connState (getState w3) = Connected \<and> currentServer (getState w3) = Some ''s''
               \<and> emitted w2 w3 = [(7, OnUpdate, getState w3), (8, OnUpdate, getState w3)]))"
proof -
  let ?p = "\<lparr>server = ''s'', username = None\<rparr>"
  let ?cs = "[(3, CAdvance 200), (3, CJoinChannel 2), (3, CAdvance 199)]"
  have nc: "connState (state two_observers) \<noteq> Connected"
    by (simp add: two_observers_eq createMockTransport_def initialState_def)
  note th = connect_sequence[OF timers_ok_two_observers nc, of 3 observers ?p]
  note th1 = th[THEN conjunct1, rule_format, OF connecting_world_run]
  have a: "connState (getState connecting_world) = Connecting
      \<and> currentServer (getState connecting_world) = Some ''s''"
    using th1 by simp
  have lv: "live (listeners connecting_world) = [7, 8]" "length (listeners connecting_world) < 3"
    by (simp_all add: connecting_world_eq)
  note late = th1[THEN conjunct2, THEN conjunct2, THEN conjunct2, THEN conjunct1, rule_format]
  note ex = th1[THEN conjunct2, THEN conjunct2, THEN conjunct2, THEN conjunct2, THEN conjunct1,
      rule_format]
  note gen = th1[THEN conjunct2, THEN conjunct2, THEN conjunct2, THEN conjunct2, THEN conjunct2,
      rule_format]
  \<comment> \<open>the latency passes in one step\<close>
  from ex[of 400 3] passive_observers lv obtain w2 where
    w2: "advance 3 observers 400 connecting_world = Some w2"
      "emitted connecting_world w2 = [(7, OnUpdate, getState w2), (8, OnUpdate, getState w2)]"
    by auto
  have "400 \<le> (400::nat) \<and> advance 3 observers 400 connecting_world = Some w2"
    using w2(1) by simp
  note l = late[OF this]
  have "connState (getState w2) = Connected" by (rule l[THEN conjunct2, THEN conjunct1])
  moreover have "currentServer (getState w2) = Some (server ?p)"
    by (rule l[THEN conjunct2, THEN conjunct2, THEN conjunct1])
  ultimately have part1: "\<exists>w2. advance 3 observers 400 connecting_world = Some w2
         \<and> connState (getState w2) = Connected \<and> currentServer (getState w2) = Some ''s''
         \<and> emitted connecting_world w2 = [(7, OnUpdate, getState w2), (8, OnUpdate, getState w2)]"
    using w2 by auto
  \<comment> \<open>the latency passes in steps, with a command in between\<close>
  from connecting_world_later obtain v2 where
    v2: "execs observers ?cs connecting_world = Some v2" "listeners v2 = [Some 7, Some 8]"
    by blast
  have el: "elapsed ?cs = 399" by simp
  have "(\<forall>c \<in> set ?cs. \<not> is_connect (snd c) \<and> \<not> is_disconnect (snd c))
      \<and> execs observers ?cs connecting_world = Some v2" using v2(1) by simp
  note g = gen[OF this]
  have g1: "connState (getState v2) = Connecting \<and> currentServer (getState v2) = Some ''s''"
    using g[THEN conjunct1] el by simp
  have "elapsed ?cs < 400 \<and> 400 \<le> elapsed ?cs + 1
      \<and> passive_cbs observers \<and> length (listeners v2) < 3"
    using el v2(2) passive_observers by simp
  from g[THEN conjunct2, THEN conjunct2, THEN conjunct2, rule_format, OF this] v2(2)
  obtain v3 where v3: "advance 3 observers 1 v2 = Some v3"
    "emitted v2 v3 = [(7, OnUpdate, getState v3), (8, OnUpdate, getState v3)]" by auto
  have "elapsed ?cs < 400 \<and> 400 \<le> elapsed ?cs + 1 \<and> advance 3 observers 1 v2 = Some v3"
    using el v3(1) by simp
  note g3 = g[THEN conjunct2, THEN conjunct2, THEN conjunct1, rule_format, OF this]
  have "connState (getState v3) = Connected" by (rule g3[THEN conjunct1])
  moreover have "currentServer (getState v3) = Some (server ?p)"
    by (rule g3[THEN conjunct2, THEN conjunct1])
  ultimately have part2: "\<exists>w2. execs observers ?cs connecting_world = Some w2
         \<and> connState (getState w2) = Connecting \<and> currentServer (getState w2) = Some ''s''
         \<and> (\<exists>w3. advance 3 observers 1 w2 = Some w3
               \<and> connState (getState w3) = Connected \<and> currentServer (getState w3) = Some ''s''
               \<and> emitted w2 w3 = [(7, OnUpdate, getState w3), (8, OnUpdate, getState w3)])"
    using v2(1) g1 v3 by auto
  from timers_ok_two_observers nc connecting_world_run a part1 part2 show ?thesis by blast
qed

subsection \<open>Callbacks that only observe: both readings agree\<close>

lemma run_calls_observing:
  assumes via: "\<And>l org snap w. via l org snap w = invoke n cbs l org snap w"
  shows "run_calls k via snap (map Observe as) w = run_actions n cbs snap as w"
proof (induction as arbitrary: w)
  case Nil
  show ?case by simp
next
  case (Cons a as)
  show ?case
  proof (cases a)
    case (Subscribe l)
    have "subscribe_by via l w = subscribe n cbs l w"
      by (simp add: subscribe_by_def Let_def via)
    with Cons Subscribe show ?thesis by (simp split: option.splits)
  next
    case (Unsubscribe l)
    with Cons show ?thesis by simp
  next
    case SetStore
    with Cons show ?thesis by simp
  qed
qed

lemma invoke_at_observing:
  "invoke_at n (observing cbs) l org snap w = invoke n cbs l org snap w"
proof (induction n arbitrary: l org snap w)
  case 0
  show ?case by simp
next
  case (Suc n)
  have "run_calls n (invoke_at n (observing cbs)) snap (map Observe (cbs l))
          (w\<lparr>log := log w @ [(l, org, snap)]\<rparr>)
        = run_actions n cbs snap (cbs l) (w\<lparr>log := log w @ [(l, org, snap)]\<rparr>)"
    by (rule run_calls_observing) (rule Suc.IH)
  moreover have "observing cbs l snap = map Observe (cbs l)" by (simp add: observing_def)
  ultimately show ?case by (simp only: invoke_at.simps invoke.simps)
qed

lemma forEach_by_observing:
  "forEach n cbs i snap w = Some w' \<Longrightarrow> n \<le> m \<Longrightarrow>
   forEach_by n (invoke_at m (observing cbs)) i snap w = Some w'"
proof (induction n cbs i snap w arbitrary: w' rule: forEach.induct)
  case (1 cbs i snap w)
  then show ?case by simp
next
  case (2 n cbs i snap w)
  show ?case
  proof (cases "i < length (listeners w)")
    case False
    with 2(3) show ?thesis by simp
  next
    case True
    show ?thesis
    proof (cases "listeners w ! i")
      case None
      with 2(3) True have "forEach n cbs (Suc i) snap w = Some w'" by simp
      from 2(1)[OF True None this] 2(4) True None show ?thesis by simp
    next
      case (Some l)
      with 2(3) True obtain w1 where
        w1: "invoke n cbs l OnUpdate snap w = Some w1" and
        rest: "forEach n cbs (Suc i) snap w1 = Some w'"
        by (auto split: option.splits)
      from 2(4) have "n \<le> m" by simp
      from fuel_mono_aux(1)[OF w1 this]
      have "invoke_at m (observing cbs) l OnUpdate snap w = Some w1"
        by (simp add: invoke_at_observing)
      moreover from 2(2)[OF True Some w1 rest] 2(4)
      have "forEach_by n (invoke_at m (observing cbs)) (Suc i) snap w1 = Some w'" by simp
      ultimately show ?thesis using True Some by simp
    qed
  qed
qed

lemma update_by_observing:
  "update n cbs f w = Some w' \<Longrightarrow> update_by n (invoke_at n (observing cbs)) f w = Some w'"
  unfolding update_def update_by_def Let_def by (rule forEach_by_observing) simp_all

lemma connect_re_observing:
  "connect n cbs p w = Some w' \<Longrightarrow> connect_re n (observing cbs) p w = Some w'"
  by (auto simp: connect_def connect_re_def connect_by_def Let_def
      split: if_splits option.splits prod.splits dest!: update_by_observing)

lemma disconnect_re_observing:
  "disconnect n cbs w = Some w' \<Longrightarrow> disconnect_re n (observing cbs) w = Some w'"
  by (simp add: disconnect_def disconnect_re_def disconnect_by_def Let_def update_by_observing)

lemma subscribe_re_observing:
  "subscribe_re n (observing cbs) l w = subscribe n cbs l w"
  by (simp add: subscribe_re_def subscribe_by_def Let_def invoke_at_observing)

section \<open>A disconnect from inside a connect\<close>

text \<open>
  C1 says that \<^verbatim>\<open>disconnect()\<close> called while a connect attempt is pending leaves the
  final state "disconnected", and that the superseded completion never makes it
  "connected" afterwards. The code breaks this when \<^verbatim>\<open>disconnect()\<close> is called by a
  listener from inside the emission of "connecting": \<^verbatim>\<open>connect\<close> emits (line 47) before
  it clears and sets the timer (lines 48-49), so the disconnect finds no timer to clear,
  and the completion is scheduled after it. With one listener that calls
  \<^verbatim>\<open>disconnect()\<close> when it is told "connecting", \<^verbatim>\<open>connect\<close> returns with the state
  "disconnected" and a completion pending; when the latency has passed the state is
  "connected", the listener having seen "connecting", "disconnected", "connected". The
  same \<^verbatim>\<open>disconnect()\<close> called after \<^verbatim>\<open>connect\<close> has returned clears the timer, and the
  state stays "disconnected".
\<close>

theorem disconnect_inside_connect:
  "subscribe_re 3 hasty 7 createMockTransport = Some hasty_start
   \<and> listeners hasty_start = [Some 7] \<and> timers hasty_start = []
   \<and> connState (getState hasty_start) = Disconnected
   \<and> map_option
        (\<lambda>w. (connState (getState w), timers w,
              map (\<lambda>e. connState (snd (snd e))) (emitted hasty_start w)))
        (connect_re 3 hasty \<lparr>server = ''s'', username = None\<rparr> hasty_start)
       = Some (Disconnected, [(1, 400)], [Connecting, Disconnected])
   \<and> map_option
        (\<lambda>w. (connState (getState w), timers w,
              map (\<lambda>e. connState (snd (snd e))) (emitted hasty_start w)))
        (Option.bind (connect_re 3 hasty \<lparr>server = ''s'', username = None\<rparr> hasty_start)
           (advance_re 3 hasty 400))
       = Some (Connected, [], [Connecting, Disconnected, Connected])
   \<and> map_option
        (\<lambda>w. (connState (getState w), timers w,
              map (\<lambda>e. connState (snd (snd e))) (emitted hasty_start w)))
        (Option.bind
           (Option.bind (connect_re 3 quiet \<lparr>server = ''s'', username = None\<rparr> hasty_start)
              (disconnect_re 3 quiet))
           (advance_re 3 quiet 400))
       = Some (Disconnected, [], [Connecting, Disconnected])"
  by code_simp

subsection \<open>Listeners that write to their snapshot\<close>

lemma deref_update:
  "deref (h[m := ob]) x = (if x = m \<and> m < length h then Some ob else deref h x)"
  by (auto simp: deref_def)

lemma confined_reader: "confined reader"
  by (simp add: confined_def reader_def)

lemma reach_root: "s \<in> set (reach h s)"
  by (simp add: reach_def split: option.splits obj.splits)

lemma confined_vandal: "confined vandal"
  unfolding confined_def
proof (intro allI)
  fix l s h
  show "length (vandal l s h) = length h
        \<and> (\<forall>x. x \<notin> set (reach h s) \<longrightarrow> vandal l s h ! x = h ! x)
        \<and> set (reach (vandal l s h) s) \<subseteq> set (reach h s)"
  proof (cases "l = 1 \<and> (\<exists>c sv ch m cs us x. deref h s = Some (StateObj c sv ch m cs us)
                              \<and> deref h m = Some (MeObj x))")
    case False
    then have "vandal l s h = h"
      by (auto simp: vandal_def split: option.splits obj.splits)
    then show ?thesis by simp
  next
    case True
    then obtain c sv ch m cs us x where d: "deref h s = Some (StateObj c sv ch m cs us)"
      "deref h m = Some (MeObj x)" and l: "l = 1" by blast
    let ?h' = "h[m := MeObj \<lparr>muted = True, deafened = True\<rparr>]"
    have v: "vandal l s h = ?h'" using d l by (simp add: vandal_def)
    have m: "m \<in> set (reach h s)" using d(1) by (simp add: reach_def)
    have sm: "s \<noteq> m" using d by auto
    have ds: "deref ?h' s = deref h s" using sm by (simp add: deref_update)
    have arr: "the_array ?h' y = the_array h y" for y
      using d(2) by (auto simp: the_array_def deref_update)
    have "reach ?h' s = reach h s"
      using ds d(1) arr by (simp add: reach_def elems_def)
    moreover have "\<forall>x. x \<notin> set (reach h s) \<longrightarrow> ?h' ! x = h ! x"
      using m by (metis nth_list_update_neq)
    ultimately show ?thesis by (simp add: v)
  qed
qed

lemma deliver_h_spec:
  "confined wr \<Longrightarrow> deliver_h wr s es h = (ds, h') \<Longrightarrow>
   length h' = length h
   \<and> (\<forall>x. x \<notin> set (reach h s) \<longrightarrow> h' ! x = h ! x)
   \<and> set (reach h' s) \<subseteq> set (reach h s)
   \<and> map fst ds = live es
   \<and> (\<forall>d \<in> set ds. fst (snd d) = s)
   \<and> (ds \<noteq> [] \<longrightarrow> snd (snd (hd ds)) = read_state h s)"
proof (induction wr s es h arbitrary: ds h' rule: deliver_h.induct)
  case (1 wr s h)
  then show ?case by simp
next
  case (2 wr s es h)
  then show ?case by simp
next
  case (3 wr s l es h)
  from 3(3) obtain ds1 where r: "deliver_h wr s es (wr l s h) = (ds1, h')"
    and ds: "ds = (l, s, read_state h s) # ds1"
    by (auto simp: Let_def split: prod.splits)
  from 3(2) have c: "length (wr l s h) = length h"
    "\<forall>x. x \<notin> set (reach h s) \<longrightarrow> wr l s h ! x = h ! x"
    "set (reach (wr l s h) s) \<subseteq> set (reach h s)"
    by (simp_all add: confined_def)
  from 3(1)[OF 3(2) r] have i: "length h' = length (wr l s h)"
    "\<forall>x. x \<notin> set (reach (wr l s h) s) \<longrightarrow> h' ! x = wr l s h ! x"
    "set (reach h' s) \<subseteq> set (reach (wr l s h) s)"
    "map fst ds1 = live es" "\<forall>d \<in> set ds1. fst (snd d) = s" by simp_all
  have "\<forall>x. x \<notin> set (reach h s) \<longrightarrow> h' ! x = h ! x"
  proof (intro allI impI)
    fix x assume x: "x \<notin> set (reach h s)"
    with c(3) have "x \<notin> set (reach (wr l s h) s)" by auto
    with i(2) c(2) x show "h' ! x = h ! x" by simp
  qed
  moreover have "set (reach h' s) \<subseteq> set (reach h s)" using i(3) c(3) by blast
  ultimately show ?case using i c ds by simp
qed

lemma deliver_h_reader:
  "deliver_h reader s es h = (map (\<lambda>l. (l, s, read_state h s)) (live es), h)"
proof (induction es)
  case Nil
  show ?case by simp
next
  case (Cons e es)
  have "reader l s h = h" for l by (simp add: reader_def)
  with Cons show ?case by (cases e) simp_all
qed

text \<open>After writes confined to a new snapshot, what existed reads as before.\<close>

lemma confined_writes_spare:
  assumes sn: "snapshot_h h a = Some (s, h1)" and rd: "read_state h a = Some v"
    and len: "length h' = length h1"
    and out: "\<forall>x. x \<notin> set (reach h1 s) \<longrightarrow> h' ! x = h1 ! x"
    and r0: "read_state h s0 = Some v0"
  shows "read_state h' s0 = Some v0"
proof -
  from snapshot_h_copy[OF rd] sn have
    m: "\<forall>h''. length h'' = length h1
           \<and> (\<forall>x < length h1. x \<notin> set (reach h1 s) \<longrightarrow> h'' ! x = h1 ! x) \<longrightarrow>
           read_state h'' a = Some v
           \<and> (\<forall>s0 v0. read_state h s0 = Some v0 \<longrightarrow> read_state h'' s0 = Some v0)
           \<and> (\<exists>s2 h2. snapshot_h h'' a = Some (s2, h2) \<and> read_state h2 s2 = Some (snapshot v))"
    by auto
  from len out have "length h' = length h1
      \<and> (\<forall>x < length h1. x \<notin> set (reach h1 s) \<longrightarrow> h' ! x = h1 ! x)" by simp
  with m r0 show ?thesis by blast
qed

lemma update_h_spec:
  assumes rd: "read_state h a = Some v" and c: "confined wr"
  shows "\<exists>ds h' s. update_h wr es h a = Some (ds, h')
     \<and> map fst ds = live es \<and> (\<forall>d \<in> set ds. fst (snd d) = s) \<and> length h \<le> s
     \<and> (ds \<noteq> [] \<longrightarrow> snd (snd (hd ds)) = Some (snapshot v))
     \<and> read_state h' a = Some v
     \<and> (\<forall>s0 v0. read_state h s0 = Some v0 \<longrightarrow> read_state h' s0 = Some v0)
     \<and> (\<exists>s2 h2. getState_h h' a = Some (s2, h2) \<and> read_state h2 s2 = Some (snapshot v)
           \<and> s2 \<noteq> s)"
proof -
  from snapshot_h_spec[OF rd] obtain s new where
    sn: "snapshot_h h a = Some (s, h @ new)"
    and rd1: "read_state (h @ new) s = Some v"
    and fr: "\<forall>x \<in> set (reach (h @ new) s). length h \<le> x \<and> x < length (h @ new)" by blast
  obtain ds h' where d: "deliver_h wr s es (h @ new) = (ds, h')" by (cases "deliver_h wr s es (h @ new)")
  from deliver_h_spec[OF c d] have k: "length h' = length (h @ new)"
    "\<forall>x. x \<notin> set (reach (h @ new) s) \<longrightarrow> h' ! x = (h @ new) ! x"
    "map fst ds = live es" "\<forall>d \<in> set ds. fst (snd d) = s"
    "ds \<noteq> [] \<longrightarrow> snd (snd (hd ds)) = read_state (h @ new) s" by simp_all
  have u: "update_h wr es h a = Some (ds, h')" using sn d by (simp add: update_h_def)
  have old: "read_state h' s0 = Some v0" if "read_state h s0 = Some v0" for s0 v0
    by (rule confined_writes_spare[OF sn rd k(1,2) that])
  have sl: "length h \<le> s" "s < length h'" using fr reach_root[of s "h @ new"] k(1) by auto
  from snapshot_h_spec[OF old[OF rd]] obtain s2 new2 where
    sn2: "snapshot_h h' a = Some (s2, h' @ new2)"
    and rd2: "read_state (h' @ new2) s2 = Some v"
    and fr2: "\<forall>x \<in> set (reach (h' @ new2) s2). length h' \<le> x \<and> x < length (h' @ new2)" by blast
  from fr2 reach_root[of s2 "h' @ new2"] sl(2) have "s2 \<noteq> s" by auto
  with sn2 rd2 have nxt: "\<exists>s2 h2. getState_h h' a = Some (s2, h2)
      \<and> read_state h2 s2 = Some (snapshot v) \<and> s2 \<noteq> s"
    by (auto simp: getState_h_def)
  from u k(3,4,5) rd1 sl(1) old[OF rd] old nxt show ?thesis
    by (intro exI[of _ ds] exI[of _ h'] exI[of _ s]) simp
qed

lemma subscribe_h_spec:
  assumes rd: "read_state h a = Some v" and c: "confined wr"
  shows "\<exists>s h'. subscribe_h wr l h a = Some ((l, s, Some (snapshot v)), h')
     \<and> length h \<le> s \<and> read_state h' a = Some v
     \<and> (\<forall>s0 v0. read_state h s0 = Some v0 \<longrightarrow> read_state h' s0 = Some v0)"
proof -
  from snapshot_h_spec[OF rd] obtain s new where
    sn: "snapshot_h h a = Some (s, h @ new)"
    and rd1: "read_state (h @ new) s = Some v"
    and fr: "\<forall>x \<in> set (reach (h @ new) s). length h \<le> x \<and> x < length (h @ new)" by blast
  let ?h' = "wr l s (h @ new)"
  from c have k: "length ?h' = length (h @ new)"
    "\<forall>x. x \<notin> set (reach (h @ new) s) \<longrightarrow> ?h' ! x = (h @ new) ! x"
    by (simp_all add: confined_def)
  have old: "read_state ?h' s0 = Some v0" if "read_state h s0 = Some v0" for s0 v0
    by (rule confined_writes_spare[OF sn rd k that])
  have "subscribe_h wr l h a = Some ((l, s, Some (snapshot v)), ?h')"
    using sn rd1 by (simp add: subscribe_h_def)
  moreover have "length h \<le> s" using fr reach_root[of s "h @ new"] by auto
  ultimately show ?thesis using old[OF rd] old by blast
qed

lemma update_h_refines:
  assumes rd: "read_state h a = Some v"
  shows "\<exists>ds h'. update_h reader es h a = Some (ds, h')
     \<and> (\<forall>w n. state w = v \<and> listeners w = es \<and> length es < n \<longrightarrow>
           (\<exists>w'. update n observers (\<lambda>s. s) w = Some w'
              \<and> map (\<lambda>d. (fst d, OnUpdate, the (snd (snd d)))) ds = emitted w w'))"
proof -
  from snapshot_h_spec[OF rd] obtain s new where
    sn: "snapshot_h h a = Some (s, h @ new)"
    and rd1: "read_state (h @ new) s = Some v" by blast
  let ?ds = "map (\<lambda>l. (l, s, Some v)) (live es)"
  have u: "update_h reader es h a = Some (?ds, h @ new)"
    using sn rd1 by (simp add: update_h_def deliver_h_reader)
  have "\<exists>w'. update n observers (\<lambda>s. s) w = Some w'
              \<and> map (\<lambda>d. (fst d, OnUpdate, the (snd (snd d)))) ?ds = emitted w w'"
    if "state w = v \<and> listeners w = es \<and> length es < n" for w n
    using that by (simp add: update_passive passive_observers emitted_def comp_def)
  with u show ?thesis by blast
qed

section \<open>Snapshots are defensive copies\<close>

text \<open>
  C8 says that a snapshot handed to a listener shares no mutable structure with any other
  emitted snapshot, so that mutating a received snapshot never changes a snapshot someone
  else retained. \<^verbatim>\<open>update\<close> (lines 84-85) takes one snapshot and hands that same object to
  every listener of the pass. The state is the initial one, at address 9; listener 1 sets
  \<^verbatim>\<open>snapshot.me\<close> to muted and deafened, listener 2 writes nothing. Called after
  listener 1, listener 2 is handed the object listener 1 was handed, and reads it as
  muted and deafened although the state is neither. Called before listener 1, listener 2
  is handed a snapshot that reads as the state; once the pass is over, the snapshot it
  retained reads as muted and deafened. The state itself is untouched in both passes.
\<close>

theorem shared_snapshot_counterexample:
  "read_state initial_heap 9 = Some initialState
   \<and> map_option fst (update_h vandal [Some 1, Some 2] initial_heap 9)
       = Some [(1, 19, Some initialState),
               (2, 19, Some (initialState\<lparr>me := \<lparr>muted = True, deafened = True\<rparr>\<rparr>))]
   \<and> map_option (\<lambda>r. read_state (snd r) 9) (update_h vandal [Some 1, Some 2] initial_heap 9)
       = Some (Some initialState)
   \<and> map_option fst (update_h vandal [Some 2, Some 1] initial_heap 9)
       = Some [(2, 19, Some initialState), (1, 19, Some initialState)]
   \<and> map_option (\<lambda>r. read_state (snd r) 19) (update_h vandal [Some 2, Some 1] initial_heap 9)
       = Some (Some (initialState\<lparr>me := \<lparr>muted = True, deafened = True\<rparr>\<rparr>))
   \<and> map_option (\<lambda>r. read_state (snd r) 9) (update_h vandal [Some 2, Some 1] initial_heap 9)
       = Some (Some initialState)"
  by code_simp

text \<open>
  C8, as the code has it. Whenever the heap holds a state \<open>v\<close> at the address \<open>a\<close> of
  \<^verbatim>\<open>this.state\<close>:

  \<^item> \<^verbatim>\<open>getState()\<close> returns an object graph that reads as \<open>v\<close>; it writes to no object that
    existed, so it has no side effect; every object of the graph is new, so the graph
    shares none with the internal state nor with any graph that existed before, an
    earlier snapshot included. However the objects of the returned graph are overwritten
    afterwards, the internal state and every graph that existed before read as they did
    and the next \<^verbatim>\<open>getState()\<close> again reads as \<open>v\<close>; and whatever happens to any other
    object, the returned graph keeps reading as \<open>v\<close>.

  \<^item> \<^verbatim>\<open>subscribe(l)\<close> hands \<open>l\<close> a new object that reads as \<open>v\<close>; whatever \<open>l\<close> writes to
    it, the internal state and every graph that existed before read as they did.

  \<^item> \<^verbatim>\<open>update\<close> calls the listeners of the set in order, each once, all with one and the
    same new object, which reads as \<open>v\<close> when the first of them is called. Whatever the
    listeners write to it, the internal state and every graph that existed before the
    pass (the snapshots of earlier emissions and of earlier \<^verbatim>\<open>getState()\<close> calls) read as
    they did, and the next \<^verbatim>\<open>getState()\<close> returns another object, which reads as \<open>v\<close>.

  \<^item> When no listener writes, what \<^verbatim>\<open>update\<close> delivers on the heap is what the
    transport of the previous sections logs for the same state and listener set.

  Listeners here write to the heap and leave the listener set alone.
\<close>

theorem snapshot_defensive_copy:
  assumes "read_state h a = Some v"
  shows "(\<exists>s h'. getState_h h a = Some (s, h')
       \<and> read_state h' s = Some (snapshot v)
       \<and> length h \<le> length h' \<and> take (length h) h' = h
       \<and> read_state h' a = Some v
       \<and> (\<forall>x \<in> set (reach h' s). length h \<le> x \<and> x < length h' \<and> x \<notin> set (reach h a))
       \<and> (\<forall>s0 v0. read_state h s0 = Some v0 \<longrightarrow>
             (\<forall>x \<in> set (reach h' s). x \<notin> set (reach h s0)))
       \<and> (\<forall>h''. length h'' = length h'
             \<and> (\<forall>x < length h'. x \<notin> set (reach h' s) \<longrightarrow> h'' ! x = h' ! x) \<longrightarrow>
             read_state h'' a = Some v
             \<and> (\<forall>s0 v0. read_state h s0 = Some v0 \<longrightarrow> read_state h'' s0 = Some v0)
             \<and> (\<exists>s2 h2. getState_h h'' a = Some (s2, h2)
                   \<and> read_state h2 s2 = Some (snapshot v)))
       \<and> (\<forall>h''. length h' \<le> length h'' \<and> (\<forall>x \<in> set (reach h' s). h'' ! x = h' ! x) \<longrightarrow>
             read_state h'' s = Some (snapshot v)))
   \<and> (\<forall>wr l. confined wr \<longrightarrow>
         (\<exists>s h'. subscribe_h wr l h a = Some ((l, s, Some (snapshot v)), h')
            \<and> length h \<le> s \<and> read_state h' a = Some v
            \<and> (\<forall>s0 v0. read_state h s0 = Some v0 \<longrightarrow> read_state h' s0 = Some v0)))
   \<and> (\<forall>wr es. confined wr \<longrightarrow>
         (\<exists>ds h' s. update_h wr es h a = Some (ds, h')
            \<and> map fst ds = live es \<and> (\<forall>d \<in> set ds. fst (snd d) = s) \<and> length h \<le> s
            \<and> (ds \<noteq> [] \<longrightarrow> snd (snd (hd ds)) = Some (snapshot v))
            \<and> read_state h' a = Some v
            \<and> (\<forall>s0 v0. read_state h s0 = Some v0 \<longrightarrow> read_state h' s0 = Some v0)
            \<and> (\<exists>s2 h2. getState_h h' a = Some (s2, h2)
                  \<and> read_state h2 s2 = Some (snapshot v) \<and> s2 \<noteq> s)))
   \<and> (\<forall>es. \<exists>ds h'. update_h reader es h a = Some (ds, h')
         \<and> (\<forall>w n. state w = v \<and> listeners w = es \<and> length es < n \<longrightarrow>
               (\<exists>w'. update n observers (\<lambda>s. s) w = Some w'
                  \<and> map (\<lambda>d. (fst d, OnUpdate, the (snd (snd d)))) ds = emitted w w')))"
proof (intro conjI allI impI)
  show "\<exists>s h'. getState_h h a = Some (s, h')
       \<and> read_state h' s = Some (snapshot v)
       \<and> length h \<le> length h' \<and> take (length h) h' = h
       \<and> read_state h' a = Some v
       \<and> (\<forall>x \<in> set (reach h' s). length h \<le> x \<and> x < length h' \<and> x \<notin> set (reach h a))
       \<and> (\<forall>s0 v0. read_state h s0 = Some v0 \<longrightarrow>
             (\<forall>x \<in> set (reach h' s). x \<notin> set (reach h s0)))
       \<and> (\<forall>h''. length h'' = length h'
             \<and> (\<forall>x < length h'. x \<notin> set (reach h' s) \<longrightarrow> h'' ! x = h' ! x) \<longrightarrow>
             read_state h'' a = Some v
             \<and> (\<forall>s0 v0. read_state h s0 = Some v0 \<longrightarrow> read_state h'' s0 = Some v0)
             \<and> (\<exists>s2 h2. getState_h h'' a = Some (s2, h2)
                   \<and> read_state h2 s2 = Some (snapshot v)))
       \<and> (\<forall>h''. length h' \<le> length h'' \<and> (\<forall>x \<in> set (reach h' s). h'' ! x = h' ! x) \<longrightarrow>
             read_state h'' s = Some (snapshot v))"
    unfolding getState_h_def by (rule snapshot_h_copy[OF assms])
next
  fix wr l assume "confined wr"
  then show "\<exists>s h'. subscribe_h wr l h a = Some ((l, s, Some (snapshot v)), h')
            \<and> length h \<le> s \<and> read_state h' a = Some v
            \<and> (\<forall>s0 v0. read_state h s0 = Some v0 \<longrightarrow> read_state h' s0 = Some v0)"
    by (rule subscribe_h_spec[OF assms])
next
  fix wr es assume "confined wr"
  then show "\<exists>ds h' s. update_h wr es h a = Some (ds, h')
            \<and> map fst ds = live es \<and> (\<forall>d \<in> set ds. fst (snd d) = s) \<and> length h \<le> s
            \<and> (ds \<noteq> [] \<longrightarrow> snd (snd (hd ds)) = Some (snapshot v))
            \<and> read_state h' a = Some v
            \<and> (\<forall>s0 v0. read_state h s0 = Some v0 \<longrightarrow> read_state h' s0 = Some v0)
            \<and> (\<exists>s2 h2. getState_h h' a = Some (s2, h2)
                  \<and> read_state h2 s2 = Some (snapshot v) \<and> s2 \<noteq> s)"
    by (rule update_h_spec[OF assms])
next
  fix es
  show "\<exists>ds h'. update_h reader es h a = Some (ds, h')
         \<and> (\<forall>w n. state w = v \<and> listeners w = es \<and> length es < n \<longrightarrow>
               (\<exists>w'. update n observers (\<lambda>s. s) w = Some w'
                  \<and> map (\<lambda>d. (fst d, OnUpdate, the (snd (snd d)))) ds = emitted w w'))"
    by (rule update_h_refines[OF assms])
qed

theorem snapshot_defensive_copy_witness:
  "read_state initial_heap 9 = Some initialState
   \<and> confined vandal
   \<and> (\<exists>s h'. getState_h initial_heap 9 = Some (s, h')
        \<and> read_state h' s = Some initialState \<and> read_state h' 9 = Some initialState
        \<and> take (length initial_heap) h' = initial_heap)
   \<and> (\<exists>s h'. subscribe_h vandal 1 initial_heap 9 = Some ((1, s, Some initialState), h')
        \<and> read_state h' 9 = Some initialState)
   \<and> (\<exists>ds h' s. update_h vandal [Some 1, Some 2] initial_heap 9 = Some (ds, h')
        \<and> map fst ds = [1, 2] \<and> list_all (\<lambda>d. fst (snd d) = s) ds
        \<and> snd (snd (hd ds)) = Some initialState
        \<and> read_state h' 9 = Some initialState
        \<and> (\<exists>s2 h2. getState_h h' 9 = Some (s2, h2)
              \<and> read_state h2 s2 = Some initialState \<and> s2 \<noteq> s))
   \<and> (\<exists>ds h' w'. update_h reader [Some 7, Some 8] initial_heap 9 = Some (ds, h')
        \<and> update 3 observers (\<lambda>s. s) two_observers = Some w'
        \<and> map (\<lambda>d. (fst d, OnUpdate, the (snd (snd d)))) ds = emitted two_observers w')"
proof -
  note t = snapshot_defensive_copy[OF initial_heap_read]
  have p1: "\<exists>s h'. getState_h initial_heap 9 = Some (s, h')
        \<and> read_state h' s = Some initialState \<and> read_state h' 9 = Some initialState
        \<and> take (length initial_heap) h' = initial_heap"
    using t[THEN conjunct1] by auto
  have p2: "\<exists>s h'. subscribe_h vandal 1 initial_heap 9 = Some ((1, s, Some initialState), h')
        \<and> read_state h' 9 = Some initialState"
    using t[THEN conjunct2, THEN conjunct1, rule_format, OF confined_vandal, of 1] by auto
  from t[THEN conjunct2, THEN conjunct2, THEN conjunct1, rule_format, OF confined_vandal,
      of "[Some 1, Some 2]"]
  obtain ds h' s where u: "update_h vandal [Some 1, Some 2] initial_heap 9 = Some (ds, h')"
    "map fst ds = live [Some 1, Some 2]" "\<forall>d \<in> set ds. fst (snd d) = s"
    "ds \<noteq> [] \<longrightarrow> snd (snd (hd ds)) = Some (snapshot initialState)"
    "read_state h' 9 = Some initialState"
    "\<exists>s2 h2. getState_h h' 9 = Some (s2, h2)
        \<and> read_state h2 s2 = Some (snapshot initialState) \<and> s2 \<noteq> s" by blast
  from u(2) have m: "map fst ds = [1, 2]" by (simp add: live_def)
  then have ne: "ds \<noteq> []" by auto
  have p3: "\<exists>ds h' s. update_h vandal [Some 1, Some 2] initial_heap 9 = Some (ds, h')
        \<and> map fst ds = [1, 2] \<and> list_all (\<lambda>d. fst (snd d) = s) ds
        \<and> snd (snd (hd ds)) = Some initialState
        \<and> read_state h' 9 = Some initialState
        \<and> (\<exists>s2 h2. getState_h h' 9 = Some (s2, h2)
              \<and> read_state h2 s2 = Some initialState \<and> s2 \<noteq> s)"
    using u(1,3,4,5,6) m ne by (intro exI[of _ ds] exI[of _ h'] exI[of _ s]) (simp add: list_all_iff)
  from t[THEN conjunct2, THEN conjunct2, THEN conjunct2, rule_format, of "[Some 7, Some 8]"]
  obtain ds2 h2 where r: "update_h reader [Some 7, Some 8] initial_heap 9 = Some (ds2, h2)"
    "\<forall>w n. state w = initialState \<and> listeners w = [Some 7, Some 8] \<and> length [Some 7, Some (8::nat)] < n \<longrightarrow>
        (\<exists>w'. update n observers (\<lambda>s. s) w = Some w'
           \<and> map (\<lambda>d. (fst d, OnUpdate, the (snd (snd d)))) ds2 = emitted w w')" by blast
  have tw: "state two_observers = initialState \<and> listeners two_observers = [Some 7, Some 8]"
    by code_simp
  from r(2)[rule_format, of two_observers 3] tw
  have p4: "\<exists>ds h' w'. update_h reader [Some 7, Some 8] initial_heap 9 = Some (ds, h')
        \<and> update 3 observers (\<lambda>s. s) two_observers = Some w'
        \<and> map (\<lambda>d. (fst d, OnUpdate, the (snd (snd d)))) ds = emitted two_observers w'"
    using r(1) by auto
  from initial_heap_read confined_vandal p1 p2 p3 p4 show ?thesis by (intro conjI)
qed

end
